theory Spec2Isabelle
  imports Main "HOL-Library.Word" "HOL-Library.Char_ord" "HOL-Library.List_Lexorder"
begin

unbundle bit_operations_syntax

section \<open>The file status model: git/RevisionFile.h\<close>

text \<open>
  \<^verbatim>\<open>enum StatusFlag { MODIFIED = 1, DELETED = 2, NEW = 4, RENAMED = 8, COPIED = 16,
  UNKNOWN = 32, IN_INDEX = 64, CONFLICT = 128 }\<close>. The status of one file is a C++
  \<^verbatim>\<open>int\<close> in which these bits are or-ed together.
\<close>

datatype StatusFlag =
  MODIFIED | DELETED | NEW | RENAMED | COPIED | UNKNOWN | IN_INDEX | CONFLICT

fun flagValue :: "StatusFlag \<Rightarrow> 32 word" where
  "flagValue MODIFIED = 1"
| "flagValue DELETED = 2"
| "flagValue NEW = 4"
| "flagValue RENAMED = 8"
| "flagValue COPIED = 16"
| "flagValue UNKNOWN = 32"
| "flagValue IN_INDEX = 64"
| "flagValue CONFLICT = 128"

text \<open>
  The failures of the model. An index outside a vector: \<^verbatim>\<open>QVector::at\<close> asserts
  \<^verbatim>\<open>0 <= i < size()\<close> and has no value to return otherwise. A pointer that is null
  or whose object has been deleted: the widget code dereferences item pointers unchecked.
\<close>

datatype error = OutOfRange | InvalidPointer

definition QVector_at :: "'a list \<Rightarrow> int \<Rightarrow> error + 'a" where
  "QVector_at v i = (if 0 \<le> i \<and> i < int (length v) then Inr (v ! nat i) else Inl OutOfRange)"

text \<open>
  The members of the class. \<^verbatim>\<open>mOnlyModified\<close> has the default member initialiser
  \<^verbatim>\<open>true\<close>; the defaulted constructor leaves every vector empty.
\<close>

record RevisionFile =
  mergeParent :: "int list"
  mFiles :: "string list"
  mOnlyModified :: bool
  mFileStatus :: "32 word list"
  mRenamedFiles :: "string list"

definition RevisionFile_default :: RevisionFile where
  "RevisionFile_default =
     \<lparr>mergeParent = [], mFiles = [], mOnlyModified = True, mFileStatus = [], mRenamedFiles = []\<rparr>"

text \<open>The inline member functions of the header.\<close>

definition count :: "RevisionFile \<Rightarrow> int" where
  "count rf = int (length (mFiles rf))"

definition getStatus :: "RevisionFile \<Rightarrow> int \<Rightarrow> error + 32 word" where
  "getStatus rf pos = QVector_at (mFileStatus rf) pos"

definition setOnlyModified :: "bool \<Rightarrow> RevisionFile \<Rightarrow> RevisionFile" where
  "setOnlyModified onlyModified rf = rf\<lparr>mOnlyModified := onlyModified\<rparr>"

definition getFilesCount :: "RevisionFile \<Rightarrow> int" where
  "getFilesCount rf = int (length (mFileStatus rf))"

definition appendExtStatus :: "string \<Rightarrow> RevisionFile \<Rightarrow> RevisionFile" where
  "appendExtStatus file rf = rf\<lparr>mRenamedFiles := mRenamedFiles rf @ [file]\<rparr>"

definition getFile :: "RevisionFile \<Rightarrow> int \<Rightarrow> error + string" where
  "getFile rf index = QVector_at (mFiles rf) index"

subsection \<open>Member functions whose bodies are not in the header\<close>

text \<open>
  The header only declares \<^verbatim>\<open>statusCmp\<close>, the three \<^verbatim>\<open>setStatus\<close> overloads and
  \<^verbatim>\<open>appendStatus\<close>; the file that defines them is not part of the sources at hand. The
  definitions of this subsection follow the specification's description of them.
\<close>

definition flagSet :: "32 word \<Rightarrow> StatusFlag \<Rightarrow> bool" where
  "flagSet st sf = (st AND flagValue sf \<noteq> 0)"

definition statusCmp :: "RevisionFile \<Rightarrow> int \<Rightarrow> StatusFlag \<Rightarrow> error + bool" where
  \<comment> \<open>Modelled from the spec: the body of \<^verbatim>\<open>RevisionFile::statusCmp\<close> is missing. It
      "returns whether flag is set for entry index" and "fails with OutOfRange" when the index
      is not in \<^verbatim>\<open>[0, count())\<close>; reading the status vector is a \<^verbatim>\<open>QVector::at\<close>.\<close>
  "statusCmp rf idx sf =
     (if 0 \<le> idx \<and> idx < count rf
      then (case QVector_at (mFileStatus rf) idx of
              Inl e \<Rightarrow> Inl e
            | Inr st \<Rightarrow> Inr (flagSet st sf))
      else Inl OutOfRange)"

definition isDigit :: "char \<Rightarrow> bool" where
  "isDigit c = (c \<in> set ''0123456789'')"

fun tokenFlag :: "string \<Rightarrow> StatusFlag" where
  \<comment> \<open>Modelled from the spec: the token to flag table of \<^verbatim>\<open>setStatus(rowStatus)\<close>, whose
      body is missing. A token is recognised by its prefix; \<^verbatim>\<open>R\<close> and \<^verbatim>\<open>C\<close> need digits
      after them; "anything else" is UNKNOWN.\<close>
  "tokenFlag [] = UNKNOWN"
| "tokenFlag (c # rest) =
     (if c = CHR ''M'' then MODIFIED
      else if c = CHR ''A'' then NEW
      else if c = CHR ''D'' then DELETED
      else if c = CHR ''R'' \<and> (case rest of [] \<Rightarrow> False | d # _ \<Rightarrow> isDigit d) then RENAMED
      else if c = CHR ''C'' \<and> (case rest of [] \<Rightarrow> False | d # _ \<Rightarrow> isDigit d) then COPIED
      else if c = CHR ''U'' then CONFLICT
      else UNKNOWN)"

definition clearsOnlyModified :: "StatusFlag \<Rightarrow> RevisionFile \<Rightarrow> RevisionFile" where
  \<comment> \<open>Modelled from the spec: "any call other than with exactly MODIFIED clears the
      onlyModified invariant to false".\<close>
  "clearsOnlyModified flag rf = (if flag = MODIFIED then rf else rf\<lparr>mOnlyModified := False\<rparr>)"

definition setStatus_token :: "string \<Rightarrow> RevisionFile \<Rightarrow> RevisionFile" where
  \<comment> \<open>Modelled from the spec: \<^verbatim>\<open>setStatus(const QString &rowSt)\<close> "parses a single raw
      status token into flag bits and appends a new entry".\<close>
  "setStatus_token rowSt rf =
     clearsOnlyModified (tokenFlag rowSt)
       (rf\<lparr>mFileStatus := mFileStatus rf @ [flagValue (tokenFlag rowSt)]\<rparr>)"

definition setStatus_flag :: "StatusFlag \<Rightarrow> RevisionFile \<Rightarrow> RevisionFile" where
  \<comment> \<open>Modelled from the spec: \<^verbatim>\<open>setStatus(StatusFlag flag)\<close> is the "bulk-set" of the
      flag mutators: every entry gets the flag.\<close>
  "setStatus_flag flag rf =
     clearsOnlyModified flag (rf\<lparr>mFileStatus := map (\<lambda>_. flagValue flag) (mFileStatus rf)\<rparr>)"

definition setStatus_at :: "int \<Rightarrow> StatusFlag \<Rightarrow> RevisionFile \<Rightarrow> error + RevisionFile" where
  \<comment> \<open>Modelled from the spec: \<^verbatim>\<open>setStatus(int pos, StatusFlag flag)\<close> "overwrites" the
      flags of one entry; the entry has to exist.\<close>
  "setStatus_at pos flag rf =
     (if 0 \<le> pos \<and> pos < getFilesCount rf
      then Inr (clearsOnlyModified flag
                  (rf\<lparr>mFileStatus := (mFileStatus rf)[nat pos := flagValue flag]\<rparr>))
      else Inl OutOfRange)"

definition appendStatus :: "int \<Rightarrow> StatusFlag \<Rightarrow> RevisionFile \<Rightarrow> error + RevisionFile" where
  \<comment> \<open>Modelled from the spec: \<^verbatim>\<open>appendStatus(int pos, StatusFlag flag)\<close> "performs a
      bitwise-OR (additive)" on the flags of one entry; the entry has to exist.\<close>
  "appendStatus pos flag rf =
     (if 0 \<le> pos \<and> pos < getFilesCount rf
      then Inr (clearsOnlyModified flag
                  (rf\<lparr>mFileStatus :=
                        (mFileStatus rf)[nat pos := (mFileStatus rf ! nat pos) OR flagValue flag]\<rparr>))
      else Inl OutOfRange)"

text \<open>
  The lifetime of one instance is a sequence of calls of its mutators; a failed call ends
  it.
\<close>

datatype RevisionFileCall =
    SetStatusToken string
  | SetStatusFlag StatusFlag
  | SetStatusAt int StatusFlag
  | AppendStatus int StatusFlag
  | AppendExtStatus string
  | SetOnlyModified bool

fun call :: "RevisionFileCall \<Rightarrow> RevisionFile \<Rightarrow> error + RevisionFile" where
  "call (SetStatusToken rowSt) rf = Inr (setStatus_token rowSt rf)"
| "call (SetStatusFlag flag) rf = Inr (setStatus_flag flag rf)"
| "call (SetStatusAt pos flag) rf = setStatus_at pos flag rf"
| "call (AppendStatus pos flag) rf = appendStatus pos flag rf"
| "call (AppendExtStatus file) rf = Inr (appendExtStatus file rf)"
| "call (SetOnlyModified b) rf = Inr (setOnlyModified b rf)"

fun calls :: "RevisionFileCall list \<Rightarrow> RevisionFile \<Rightarrow> error + RevisionFile" where
  "calls [] rf = Inr rf"
| "calls (c # cs) rf = (case call c rf of Inl e \<Rightarrow> Inl e | Inr rf' \<Rightarrow> calls cs rf')"

fun appliedFlag :: "RevisionFileCall \<Rightarrow> StatusFlag option" where
  "appliedFlag (SetStatusToken rowSt) = Some (tokenFlag rowSt)"
| "appliedFlag (SetStatusFlag flag) = Some flag"
| "appliedFlag (SetStatusAt pos flag) = Some flag"
| "appliedFlag (AppendStatus pos flag) = Some flag"
| "appliedFlag (AppendExtStatus file) = None"
| "appliedFlag (SetOnlyModified b) = None"

fun isSetOnlyModified :: "RevisionFileCall \<Rightarrow> bool" where
  "isSetOnlyModified (SetOnlyModified b) = True"
| "isSetOnlyModified _ = False"

definition onlyModifiedApplied :: "RevisionFileCall list \<Rightarrow> bool" where
  "onlyModifiedApplied cs = list_all (\<lambda>c. appliedFlag c \<in> {None, Some MODIFIED}) cs"

section \<open>The work-in-progress widget: src/commits/WorkInProgressWidget.cpp\<close>

subsection \<open>The objects the widget holds\<close>

text \<open>
  The three list widgets of the form, the five colours of \<^verbatim>\<open>GitQlientStyles\<close> (named
  after their getters; the colour values are not part of the sources at hand), and the two
  slots a file widget's \<^verbatim>\<open>clicked\<close> signal is connected to.
\<close>

datatype QListWidget = UntrackedFilesList | UnstagedFilesList | StagedFilesList

datatype QColor = Blue | Red | Orange | Green | TextColor

datatype ClickedSlot = ResetFile | AddFileToCommitList

text \<open>
  A list item with the data roles of \<^verbatim>\<open>enum GitQlientRole\<close>, and the widget shown in
  its row.
\<close>

record QListWidgetItem =
  U_ListRole :: QListWidget
  U_IsConflict :: bool
  U_Name :: string
  itemText :: string
  toolTip :: string
  foreground :: QColor
  selectableEnabled :: bool

record FileWidget =
  icon :: string
  widgetText :: string
  textColor :: QColor
  clicked :: ClickedSlot

text \<open>
  \<^verbatim>\<open>mCurrentFilesCache\<close> is a \<^verbatim>\<open>QMap<QString, QPair<bool, QListWidgetItem *>>\<close>: a list
  of entries in key order, one entry per key. Items live in a store indexed by their
  address; \<open>nextItem\<close> is the address the next \<^verbatim>\<open>new QListWidgetItem\<close> returns. Each
  list widget is the sequence of the addresses of its rows.
\<close>

type_synonym item_ptr = nat

type_synonym FilesCache = "(string \<times> bool \<times> item_ptr) list"

record WorkInProgressWidget =
  mCurrentFilesCache :: FilesCache
  items :: "item_ptr \<rightharpoonup> QListWidgetItem"
  itemWidgets :: "item_ptr \<rightharpoonup> FileWidget"
  nextItem :: item_ptr
  untrackedFilesList :: "item_ptr list"
  unstagedFilesList :: "item_ptr list"
  stagedFilesList :: "item_ptr list"
  leCommitTitle :: string
  teDescription :: string
  pbCommitEnabled :: bool
  lUnstagedCount :: nat
  lStagedCount :: nat
  lastMsgBeforeError :: string

subsection \<open>QMap and QListWidget operations used by the widget\<close>

definition QMap_keys :: "FilesCache \<Rightarrow> string set" where
  "QMap_keys m = set (map fst m)"

definition QMap_contains :: "string \<Rightarrow> FilesCache \<Rightarrow> bool" where
  "QMap_contains k m = (k \<in> set (map fst m))"

definition QMap_value :: "FilesCache \<Rightarrow> string \<Rightarrow> (bool \<times> item_ptr) option" where
  "QMap_value m k = map_of m k"

fun QMap_insert :: "string \<Rightarrow> bool \<times> item_ptr \<Rightarrow> FilesCache \<Rightarrow> FilesCache" where
  "QMap_insert k v [] = [(k, v)]"
| "QMap_insert k v ((k', v') # m) =
     (if k = k' then (k, v) # m
      else if k < k' then (k, v) # (k', v') # m
      else (k', v') # QMap_insert k v m)"

definition setFirst :: "string \<Rightarrow> bool \<Rightarrow> FilesCache \<Rightarrow> FilesCache" where
  \<comment> \<open>\<^verbatim>\<open>m[k].first = b\<close> for a key the map holds\<close>
  "setFirst k b m = map (\<lambda>(k', seen, item). if k' = k then (k', b, item) else (k', seen, item)) m"

fun rows :: "QListWidget \<Rightarrow> WorkInProgressWidget \<Rightarrow> item_ptr list" where
  "rows UntrackedFilesList w = untrackedFilesList w"
| "rows UnstagedFilesList w = unstagedFilesList w"
| "rows StagedFilesList w = stagedFilesList w"

fun addItem :: "QListWidget \<Rightarrow> item_ptr \<Rightarrow> WorkInProgressWidget \<Rightarrow> WorkInProgressWidget" where
  "addItem UntrackedFilesList p w = w\<lparr>untrackedFilesList := untrackedFilesList w @ [p]\<rparr>"
| "addItem UnstagedFilesList p w = w\<lparr>unstagedFilesList := unstagedFilesList w @ [p]\<rparr>"
| "addItem StagedFilesList p w = w\<lparr>stagedFilesList := stagedFilesList w @ [p]\<rparr>"

definition deleteItem :: "item_ptr \<Rightarrow> WorkInProgressWidget \<Rightarrow> WorkInProgressWidget" where
  \<comment> \<open>\<^verbatim>\<open>delete item\<close>: the destructor takes the item out of the list that shows it, and
      the view drops the widget of that row\<close>
  "deleteItem p w =
     w\<lparr>items := (items w)(p := None),
       itemWidgets := (itemWidgets w)(p := None),
       untrackedFilesList := removeAll p (untrackedFilesList w),
       unstagedFilesList := removeAll p (unstagedFilesList w),
       stagedFilesList := removeAll p (stagedFilesList w)\<rparr>"

subsection \<open>getColorForFile\<close>

definition thenDo :: "error + 'a \<Rightarrow> ('a \<Rightarrow> error + 'b) \<Rightarrow> error + 'b" where
  "thenDo r f = (case r of Inl e \<Rightarrow> Inl e | Inr v \<Rightarrow> f v)"

definition getColorForFile :: "RevisionFile \<Rightarrow> int \<Rightarrow> error + QColor" where
  "getColorForFile files index =
     thenDo (statusCmp files index UNKNOWN) (\<lambda>isUnknown.
     thenDo (statusCmp files index IN_INDEX) (\<lambda>isInIndex.
     thenDo (statusCmp files index CONFLICT) (\<lambda>isConflict.
     let untrackedFile = \<not> isInIndex \<and> isUnknown in
     thenDo (statusCmp files index DELETED) (\<lambda>isDeleted.
       if isConflict then Inr Blue
       else if isDeleted then Inr Red
       else if untrackedFile then Inr Orange
       else thenDo (statusCmp files index NEW) (\<lambda>isNew.
         if isNew \<or> isUnknown \<or> isInIndex then Inr Green else Inr TextColor)))))"

subsection \<open>prepareCache, clearCache, insertFiles\<close>

definition prepareCache :: "WorkInProgressWidget \<Rightarrow> WorkInProgressWidget" where
  "prepareCache w =
     w\<lparr>mCurrentFilesCache := map (\<lambda>(k, seen, item). (k, False, item)) (mCurrentFilesCache w)\<rparr>"

text \<open>
  \<^verbatim>\<open>clearCache\<close> walks the map; an entry whose \<^verbatim>\<open>first\<close> is false has its item deleted
  and is erased. The function returns the entries it keeps, the widget after the deletions
  and the keys it erased, in the order of the walk.
\<close>

fun clearCache_from ::
  "FilesCache \<Rightarrow> WorkInProgressWidget \<Rightarrow> error + (FilesCache \<times> WorkInProgressWidget \<times> string list)"
where
  "clearCache_from [] w = Inr ([], w, [])"
| "clearCache_from ((k, seen, item) # rest) w =
     (if \<not> seen
      then (case items w item of
              None \<Rightarrow> Inl InvalidPointer
            | Some _ \<Rightarrow>
                (case clearCache_from rest (deleteItem item w) of
                   Inl e \<Rightarrow> Inl e
                 | Inr (kept, w', erased) \<Rightarrow> Inr (kept, w', k # erased)))
      else (case clearCache_from rest w of
              Inl e \<Rightarrow> Inl e
            | Inr (kept, w', erased) \<Rightarrow> Inr ((k, seen, item) # kept, w', erased)))"

definition clearCache :: "WorkInProgressWidget \<Rightarrow> error + (WorkInProgressWidget \<times> string list)" where
  "clearCache w =
     (case clearCache_from (mCurrentFilesCache w) w of
        Inl e \<Rightarrow> Inl e
      | Inr (kept, w', erased) \<Rightarrow> Inr (w'\<lparr>mCurrentFilesCache := kept\<rparr>, erased))"

text \<open>
  The body of the loop of \<^verbatim>\<open>insertFiles\<close> for the entry at index \<open>i\<close>. It returns the
  widget and the names for which it created an item (one or none).
\<close>

definition insertFile ::
  "RevisionFile \<Rightarrow> QListWidget \<Rightarrow> int \<Rightarrow> WorkInProgressWidget \<Rightarrow> error + (WorkInProgressWidget \<times> string list)"
where
  "insertFile files fileList i w =
     thenDo (getFile files i) (\<lambda>fileName.
       if \<not> QMap_contains fileName (mCurrentFilesCache w)
       then
         thenDo (statusCmp files i UNKNOWN) (\<lambda>isUnknown.
         thenDo (statusCmp files i IN_INDEX) (\<lambda>isInIndex.
         thenDo (statusCmp files i CONFLICT) (\<lambda>isConflict.
         thenDo (getColorForFile files i) (\<lambda>color.
           let untrackedFile = \<not> isInIndex \<and> isUnknown;
               staged = isInIndex \<and> \<not> isUnknown \<and> \<not> isConflict;
               parent = (if untrackedFile then UntrackedFilesList
                         else if staged then StagedFilesList
                         else fileList);
               item = nextItem w;
               name = (if isConflict then fileName @ '' (conflicts'' else fileName);
               fileWidget =
                 \<lparr>icon = (if \<not> untrackedFile \<and> staged then '':/icons/remove'' else '':/icons/add''),
                  widgetText = name,
                  textColor = color,
                  clicked = (if staged then ResetFile else AddFileToCommitList)\<rparr>
           in Inr (addItem fileList item
                     (w\<lparr>mCurrentFilesCache := QMap_insert fileName (True, item) (mCurrentFilesCache w),
                        items := (items w)(item \<mapsto>
                          \<lparr>U_ListRole = parent,
                           U_IsConflict = isConflict,
                           U_Name = name,
                           itemText = [],
                           toolTip = fileName,
                           foreground = color,
                           selectableEnabled = (fileList \<noteq> StagedFilesList)\<rparr>),
                        itemWidgets := (itemWidgets w)(item \<mapsto> fileWidget),
                        nextItem := Suc item\<rparr>),
                   [fileName])))))
       else Inr (w\<lparr>mCurrentFilesCache := setFirst fileName True (mCurrentFilesCache w)\<rparr>, []))"

function insertFiles_from ::
  "RevisionFile \<Rightarrow> QListWidget \<Rightarrow> int \<Rightarrow> WorkInProgressWidget \<Rightarrow> error + (WorkInProgressWidget \<times> string list)"
where
  "insertFiles_from files fileList i w =
     (if i < count files
      then (case insertFile files fileList i w of
              Inl e \<Rightarrow> Inl e
            | Inr (w', created) \<Rightarrow>
                (case insertFiles_from files fileList (i + 1) w' of
                   Inl e \<Rightarrow> Inl e
                 | Inr (w'', created') \<Rightarrow> Inr (w'', created @ created')))
      else Inr (w, []))"
  by pat_completeness auto
termination
  by (relation "measure (\<lambda>(files, fileList, i, w). nat (count files - i))") auto

definition insertFiles ::
  "RevisionFile \<Rightarrow> QListWidget \<Rightarrow> WorkInProgressWidget \<Rightarrow> error + (WorkInProgressWidget \<times> string list)"
where
  "insertFiles files fileList w = insertFiles_from files fileList 0 w"

subsection \<open>configure: one reconciliation pass\<close>

text \<open>
  The result of a pass: the widget, the names for which an item was created (the inserts)
  and the names whose entry was erased and item deleted (the removes). No statement of a
  pass moves an item between lists or rewrites the data of an existing item.
\<close>

record Pass =
  widget :: WorkInProgressWidget
  inserted :: "string list"
  removed :: "string list"

definition configure_pass :: "RevisionFile \<Rightarrow> WorkInProgressWidget \<Rightarrow> error + Pass" where
  \<comment> \<open>\<^verbatim>\<open>prepareCache(); insertFiles(files, ui->unstagedFilesList); clearCache();\<close>\<close>
  "configure_pass files w =
     (case insertFiles files UnstagedFilesList (prepareCache w) of
        Inl e \<Rightarrow> Inl e
      | Inr (w1, created) \<Rightarrow>
          (case clearCache w1 of
             Inl e \<Rightarrow> Inl e
           | Inr (w2, erased) \<Rightarrow> Inr \<lparr>widget = w2, inserted = created, removed = erased\<rparr>))"

definition configure :: "int \<Rightarrow> RevisionFile \<Rightarrow> WorkInProgressWidget \<Rightarrow> error + Pass" where
  \<comment> \<open>\<open>parentsCount\<close> and \<open>files\<close> are what the revisions cache answers for the commit\<close>
  "configure parentsCount files w =
     (if parentsCount \<le> 0 then Inr \<lparr>widget = w, inserted = [], removed = []\<rparr>
      else (case configure_pass files w of
              Inl e \<Rightarrow> Inl e
            | Inr r \<Rightarrow>
                Inr (r\<lparr>widget := (widget r)
                      \<lparr>lUnstagedCount := length (unstagedFilesList (widget r)),
                       lStagedCount := length (stagedFilesList (widget r)),
                       pbCommitEnabled := (stagedFilesList (widget r) \<noteq> [])\<rparr>\<rparr>)))"

definition WorkInProgressWidget_new :: WorkInProgressWidget where
  \<comment> \<open>the widget after its constructor: empty cache, empty lists, no item allocated\<close>
  "WorkInProgressWidget_new =
     \<lparr>mCurrentFilesCache = [], items = Map.empty, itemWidgets = Map.empty, nextItem = 0,
      untrackedFilesList = [], unstagedFilesList = [], stagedFilesList = [],
      leCommitTitle = [], teDescription = [], pbCommitEnabled = False,
      lUnstagedCount = 0, lStagedCount = 0, lastMsgBeforeError = []\<rparr>"

definition cacheOk :: "WorkInProgressWidget \<Rightarrow> bool" where
  \<comment> \<open>what the map and the allocator guarantee: one entry per key, one item per entry, every
      cached item allocated and not deleted\<close>
  "cacheOk w =
     (distinct (map fst (mCurrentFilesCache w)) \<and>
      distinct (map (\<lambda>(k, seen, item). item) (mCurrentFilesCache w)) \<and>
      list_all (\<lambda>(k, seen, item). item < nextItem w \<and> items w item \<noteq> None) (mCurrentFilesCache w))"

definition itemsLive :: "WorkInProgressWidget \<Rightarrow> bool" where
  "itemsLive w = list_all (\<lambda>(k, seen, item). items w item \<noteq> None) (mCurrentFilesCache w)"

definition cachedItem :: "WorkInProgressWidget \<Rightarrow> string \<Rightarrow> QListWidgetItem option" where
  "cachedItem w k =
     (case QMap_value (mCurrentFilesCache w) k of
        None \<Rightarrow> None
      | Some (seen, item) \<Rightarrow> items w item)"

subsection \<open>getFiles, checkMsg, hasConflicts, commitChanges\<close>

fun getFiles_from :: "item_ptr list \<Rightarrow> WorkInProgressWidget \<Rightarrow> error + string list" where
  "getFiles_from [] w = Inr []"
| "getFiles_from (item # rest) w =
     (case itemWidgets w item of
        None \<Rightarrow> Inl InvalidPointer
      | Some fileWidget \<Rightarrow>
          (case getFiles_from rest w of
             Inl e \<Rightarrow> Inl e
           | Inr selFiles \<Rightarrow> Inr (widgetText fileWidget # selFiles)))"

definition getFiles :: "WorkInProgressWidget \<Rightarrow> error + string list" where
  "getFiles w = getFiles_from (stagedFilesList w) w"

fun hasConflicts_from :: "FilesCache \<Rightarrow> WorkInProgressWidget \<Rightarrow> error + bool" where
  "hasConflicts_from [] w = Inr False"
| "hasConflicts_from ((k, seen, item) # rest) w =
     (case items w item of
        None \<Rightarrow> Inl InvalidPointer
      | Some it \<Rightarrow> if U_IsConflict it then Inr True else hasConflicts_from rest w)"

definition hasConflicts :: "WorkInProgressWidget \<Rightarrow> error + bool" where
  "hasConflicts w = hasConflicts_from (mCurrentFilesCache w) w"

text \<open>
  What the widget does to the outside: message boxes, the calls into the git layer and the
  signal it emits.
\<close>

datatype Effect =
    Warning string string
  | UpdateWipRevision
  | CommitFiles "string list" string
  | SignalChangesCommitted bool

text \<open>
  The text functions of Qt that \<^verbatim>\<open>checkMsg\<close> applies, and the answer of
  \<^verbatim>\<open>GitLocal::commitFiles\<close>, are parameters of the model.
\<close>

record QtText =
  removeComments :: "string \<Rightarrow> string"
  stripTrailing :: "string \<Rightarrow> string"
  trimmed :: "string \<Rightarrow> string"
  firstSection :: "string \<Rightarrow> string"
  restSection :: "string \<Rightarrow> string"

definition checkMsg :: "QtText \<Rightarrow> WorkInProgressWidget \<Rightarrow> bool \<times> string \<times> Effect list" where
  "checkMsg qt w =
     (let title = leCommitTitle w;
          warned = (if title = [] then [Warning ''Commit changes'' ''Please, add a title.''] else []);
          msg1 = (if teDescription w \<noteq> []
                  then title @ removeComments qt ([CHR 0x0A, CHR 0x0A] @ teDescription w)
                  else title);
          msg2 = trimmed qt (stripTrailing qt msg1)
      in if msg2 = []
         then (False, msg2, warned @ [Warning ''Commit changes'' ''Please, add a title.''])
         else (True,
               firstSection qt msg2 @ [CHR 0x0A] @ trimmed qt (restSection qt msg2) @ [CHR 0x0A],
               warned))"

definition commitChanges ::
  "QtText \<Rightarrow> (string list \<Rightarrow> string \<Rightarrow> bool) \<Rightarrow> WorkInProgressWidget
     \<Rightarrow> error + (bool \<times> Effect list \<times> WorkInProgressWidget)"
where
  "commitChanges qt commitFiles w =
     (case getFiles w of
        Inl e \<Rightarrow> Inl e
      | Inr selFiles \<Rightarrow>
          if selFiles \<noteq> []
          then (case hasConflicts w of
                  Inl e \<Rightarrow> Inl e
                | Inr conflicts \<Rightarrow>
                    if conflicts
                    then Inr (False,
                              [Warning ''Impossible to commit''
                                 ''There are files with conflicts. Please, resolve the conflicts first.''],
                              w)
                    else (case checkMsg qt w of
                            (ok, msg, warned) \<Rightarrow>
                              if ok
                              then (let success = commitFiles selFiles msg
                                    in Inr (True,
                                            warned @ [UpdateWipRevision, CommitFiles selFiles msg,
                                                      SignalChangesCommitted success],
                                            w\<lparr>lastMsgBeforeError := (if success then [] else msg),
                                              leCommitTitle := [],
                                              teDescription := []\<rparr>))
                              else Inr (False, warned, w)))
          else Inr (False, [], w))"

definition conflictMarked :: "WorkInProgressWidget \<Rightarrow> bool" where
  \<comment> \<open>some entry of the cache holds an item whose \<^verbatim>\<open>U_IsConflict\<close> data is true\<close>
  "conflictMarked w =
     list_ex (\<lambda>(k, seen, item). case items w item of None \<Rightarrow> False | Some it \<Rightarrow> U_IsConflict it)
       (mCurrentFilesCache w)"

definition commits :: "Effect list \<Rightarrow> bool" where
  "commits effects = list_ex (\<lambda>e. case e of CommitFiles _ _ \<Rightarrow> True | _ \<Rightarrow> False) effects"

section \<open>Properties of the file status model\<close>

subsection \<open>Flag bits\<close>

lemma flagSet_flagValue: "flagSet (flagValue f) sf = (sf = f)"
  by (cases f; cases sf; simp add: flagSet_def)

lemma flagSet_or: "flagSet (st OR flagValue f) sf = (flagSet st sf \<or> sf = f)"
proof -
  have "flagSet (st OR flagValue f) sf = (flagSet st sf \<or> flagSet (flagValue f) sf)"
    by (simp add: flagSet_def word_ao_dist or_eq_0_iff)
  then show ?thesis by (simp add: flagSet_flagValue)
qed

lemma clearsOnlyModified_fields:
  "mFileStatus (clearsOnlyModified f rf) = mFileStatus rf"
  "mFiles (clearsOnlyModified f rf) = mFiles rf"
  "mOnlyModified (clearsOnlyModified f rf) = (mOnlyModified rf \<and> f = MODIFIED)"
  by (simp_all add: clearsOnlyModified_def)

subsection \<open>Index accessors\<close>

lemma QVector_at_in: "0 \<le> i \<Longrightarrow> i < int (length v) \<Longrightarrow> QVector_at v i = Inr (v ! nat i)"
  by (simp add: QVector_at_def)

lemma QVector_at_out: "\<not> (0 \<le> i \<and> i < int (length v)) \<Longrightarrow> QVector_at v i = Inl OutOfRange"
  by (simp add: QVector_at_def)

lemma statusCmp_in:
  "0 \<le> i \<Longrightarrow> i < count rf \<Longrightarrow> i < getFilesCount rf \<Longrightarrow>
   statusCmp rf i sf = Inr (flagSet (mFileStatus rf ! nat i) sf)"
  by (simp add: statusCmp_def QVector_at_def getFilesCount_def)

text \<open>
  Claim C7. For an index in \<open>[0, count())\<close>, \<open>getFile\<close> returns the path stored at the
  index and \<open>statusCmp\<close> reports the flags of the entry at the index: the bits stored
  there, which are the flag written by \<open>setStatus(pos, flag)\<close>, or the old bits plus the flag
  after \<open>appendStatus(pos, flag)\<close>. For an index outside \<open>[0, count())\<close> both fail with
  \<open>OutOfRange\<close>. (The flags are read under the data model's invariant that there are as
  many status entries as paths.)
\<close>

theorem getFile_statusCmp_index:
  "(0 \<le> i \<and> i < count rf \<longrightarrow> getFile rf i = Inr (mFiles rf ! nat i))
   \<and> (0 \<le> i \<and> i < count rf \<and> getFilesCount rf = count rf \<longrightarrow>
        statusCmp rf i sf = Inr (flagSet (mFileStatus rf ! nat i) sf)
        \<and> getStatus rf i = Inr (mFileStatus rf ! nat i))
   \<and> (0 \<le> i \<and> i < count rf \<and> setStatus_at i f rf = Inr rf' \<longrightarrow>
        statusCmp rf' i sf = Inr (sf = f))
   \<and> (0 \<le> i \<and> i < count rf \<and> appendStatus i f rf = Inr rf' \<longrightarrow>
        statusCmp rf' i sf = Inr (flagSet (mFileStatus rf ! nat i) sf \<or> sf = f))
   \<and> (\<not> (0 \<le> i \<and> i < count rf) \<longrightarrow>
        getFile rf i = Inl OutOfRange \<and> statusCmp rf i sf = Inl OutOfRange)"
proof (intro conjI impI)
  assume "0 \<le> i \<and> i < count rf"
  then show "getFile rf i = Inr (mFiles rf ! nat i)"
    by (simp add: getFile_def count_def QVector_at_def)
next
  assume a: "0 \<le> i \<and> i < count rf \<and> getFilesCount rf = count rf"
  then show "statusCmp rf i sf = Inr (flagSet (mFileStatus rf ! nat i) sf)"
    by (simp add: statusCmp_in)
  from a show "getStatus rf i = Inr (mFileStatus rf ! nat i)"
    by (simp add: getStatus_def getFilesCount_def QVector_at_def)
next
  assume a: "0 \<le> i \<and> i < count rf \<and> setStatus_at i f rf = Inr rf'"
  then have r: "0 \<le> i" "i < getFilesCount rf"
    and e: "rf' = clearsOnlyModified f (rf\<lparr>mFileStatus := (mFileStatus rf)[nat i := flagValue f]\<rparr>)"
    by (auto simp: setStatus_at_def split: if_splits)
  from a r show "statusCmp rf' i sf = Inr (sf = f)"
    unfolding e
    by (simp add: statusCmp_def clearsOnlyModified_fields count_def getFilesCount_def
        QVector_at_def flagSet_flagValue)
next
  assume a: "0 \<le> i \<and> i < count rf \<and> appendStatus i f rf = Inr rf'"
  then have r: "0 \<le> i" "i < getFilesCount rf"
    and e: "rf' = clearsOnlyModified f
              (rf\<lparr>mFileStatus := (mFileStatus rf)[nat i := (mFileStatus rf ! nat i) OR flagValue f]\<rparr>)"
    by (auto simp: appendStatus_def split: if_splits)
  from a r show "statusCmp rf' i sf = Inr (flagSet (mFileStatus rf ! nat i) sf \<or> sf = f)"
    unfolding e
    by (simp add: statusCmp_def clearsOnlyModified_fields count_def getFilesCount_def
        QVector_at_def flagSet_or)
next
  assume "\<not> (0 \<le> i \<and> i < count rf)"
  then show "getFile rf i = Inl OutOfRange" "statusCmp rf i sf = Inl OutOfRange"
    by (auto simp: getFile_def count_def QVector_at_def statusCmp_def)
qed

theorem getFile_statusCmp_index_witness:
  "getFile \<lparr>mergeParent = [], mFiles = [''a.txt'', ''b.txt''], mOnlyModified = False,
        mFileStatus = [65, 192], mRenamedFiles = []\<rparr> 1 = Inr ''b.txt''
   \<and> statusCmp \<lparr>mergeParent = [], mFiles = [''a.txt'', ''b.txt''], mOnlyModified = False,
        mFileStatus = [65, 192], mRenamedFiles = []\<rparr> 1 CONFLICT = Inr True
   \<and> statusCmp \<lparr>mergeParent = [], mFiles = [''a.txt'', ''b.txt''], mOnlyModified = False,
        mFileStatus = [65, 192], mRenamedFiles = []\<rparr> 1 MODIFIED = Inr False
   \<and> getFile \<lparr>mergeParent = [], mFiles = [''a.txt'', ''b.txt''], mOnlyModified = False,
        mFileStatus = [65, 192], mRenamedFiles = []\<rparr> 2 = Inl OutOfRange
   \<and> statusCmp \<lparr>mergeParent = [], mFiles = [''a.txt'', ''b.txt''], mOnlyModified = False,
        mFileStatus = [65, 192], mRenamedFiles = []\<rparr> (- 1) CONFLICT = Inl OutOfRange"
  using getFile_statusCmp_index [of 1 "\<lparr>mergeParent = [], mFiles = [''a.txt'', ''b.txt''],
        mOnlyModified = False, mFileStatus = [65, 192], mRenamedFiles = []\<rparr>" CONFLICT]
    getFile_statusCmp_index [of 1 "\<lparr>mergeParent = [], mFiles = [''a.txt'', ''b.txt''],
        mOnlyModified = False, mFileStatus = [65, 192], mRenamedFiles = []\<rparr>" MODIFIED]
    getFile_statusCmp_index [of 2 "\<lparr>mergeParent = [], mFiles = [''a.txt'', ''b.txt''],
        mOnlyModified = False, mFileStatus = [65, 192], mRenamedFiles = []\<rparr>" CONFLICT]
    getFile_statusCmp_index [of "- 1" "\<lparr>mergeParent = [], mFiles = [''a.txt'', ''b.txt''],
        mOnlyModified = False, mFileStatus = [65, 192], mRenamedFiles = []\<rparr>" CONFLICT]
  by (simp add: count_def getFilesCount_def flagSet_def)

subsection \<open>The token table\<close>

lemma flagValue_not_IN_INDEX: "f \<noteq> IN_INDEX \<Longrightarrow> \<not> flagSet (flagValue f) IN_INDEX"
  by (simp add: flagSet_flagValue)

lemma tokenFlag_not_IN_INDEX: "tokenFlag tok \<noteq> IN_INDEX"
  by (cases tok) auto

text \<open>
  Claim C8. \<open>setStatus(rowStatus)\<close> appends one entry whose bits are exactly one flag, chosen
  by the prefix of the token: \<open>M\<close> MODIFIED, \<open>A\<close> NEW, \<open>D\<close> DELETED, \<open>R\<close> and digits RENAMED,
  \<open>C\<close> and digits COPIED, \<open>U\<close> CONFLICT, any other token UNKNOWN. It leaves the entries
  already there as they are and never sets IN_INDEX.
\<close>

theorem setStatus_token_table:
  "mFileStatus (setStatus_token tok rf) = mFileStatus rf @ [flagValue (tokenFlag tok)]
   \<and> mFiles (setStatus_token tok rf) = mFiles rf
   \<and> tokenFlag (CHR ''M'' # rest) = MODIFIED
   \<and> tokenFlag (CHR ''A'' # rest) = NEW
   \<and> tokenFlag (CHR ''D'' # rest) = DELETED
   \<and> (isDigit d \<longrightarrow> tokenFlag (CHR ''R'' # d # rest) = RENAMED)
   \<and> (isDigit d \<longrightarrow> tokenFlag (CHR ''C'' # d # rest) = COPIED)
   \<and> tokenFlag (CHR ''U'' # rest) = CONFLICT
   \<and> ((tok = [] \<or> hd tok \<notin> set ''MADRCU''
        \<or> (hd tok \<in> set ''RC'' \<and> (tl tok = [] \<or> \<not> isDigit (hd (tl tok)))))
       \<longrightarrow> tokenFlag tok = UNKNOWN)
   \<and> tokenFlag tok \<noteq> IN_INDEX
   \<and> \<not> flagSet (last (mFileStatus (setStatus_token tok rf))) IN_INDEX"
proof -
  have u: "(tok = [] \<or> hd tok \<notin> set ''MADRCU''
        \<or> (hd tok \<in> set ''RC'' \<and> (tl tok = [] \<or> \<not> isDigit (hd (tl tok)))))
       \<longrightarrow> tokenFlag tok = UNKNOWN"
    by (cases tok) (auto split: list.splits)
  have s: "mFileStatus (setStatus_token tok rf) = mFileStatus rf @ [flagValue (tokenFlag tok)]"
    by (simp add: setStatus_token_def clearsOnlyModified_fields)
  have n: "\<not> flagSet (last (mFileStatus (setStatus_token tok rf))) IN_INDEX"
    by (simp add: s flagSet_flagValue tokenFlag_not_IN_INDEX [symmetric])
  show ?thesis
    using u s n by (simp add: setStatus_token_def clearsOnlyModified_fields tokenFlag_not_IN_INDEX)
qed

theorem setStatus_token_table_witness:
  "isDigit CHR ''1''
   \<and> tokenFlag ''M'' = MODIFIED \<and> tokenFlag ''R100'' = RENAMED \<and> tokenFlag ''C100'' = COPIED
   \<and> tokenFlag ''Z'' = UNKNOWN \<and> tokenFlag ''R'' = UNKNOWN
   \<and> mFileStatus (setStatus_token ''R100'' RevisionFile_default) = [8]
   \<and> mFileStatus (setStatus_token ''Z'' RevisionFile_default) = [32]"
  using setStatus_token_table [of "''Z''" RevisionFile_default "[]" "CHR ''1''"]
    setStatus_token_table [of "''R''" RevisionFile_default "''00''" "CHR ''1''"]
    setStatus_token_table [of "''R100''" RevisionFile_default "''00''" "CHR ''1''"]
  by (simp add: isDigit_def RevisionFile_default_def)

subsection \<open>onlyModified over the lifetime of an instance\<close>

lemma call_onlyModified:
  "call c rf = Inr rf' \<Longrightarrow> \<not> isSetOnlyModified c \<Longrightarrow>
   mOnlyModified rf' = (mOnlyModified rf \<and> appliedFlag c \<in> {None, Some MODIFIED})"
  by (cases c)
    (auto simp: setStatus_token_def setStatus_flag_def setStatus_at_def appendStatus_def
      appendExtStatus_def clearsOnlyModified_fields split: if_splits)

lemma calls_onlyModified:
  "calls cs rf = Inr rf' \<Longrightarrow> \<not> list_ex isSetOnlyModified cs \<Longrightarrow>
   mOnlyModified rf' = (mOnlyModified rf \<and> onlyModifiedApplied cs)"
proof (induction cs arbitrary: rf)
  case Nil
  then show ?case by (simp add: onlyModifiedApplied_def)
next
  case (Cons c cs)
  from Cons.prems obtain rf1 where c: "call c rf = Inr rf1" and cs: "calls cs rf1 = Inr rf'"
    by (auto split: sum.splits)
  from Cons.prems have n: "\<not> isSetOnlyModified c" "\<not> list_ex isSetOnlyModified cs"
    by simp_all
  have "mOnlyModified rf' = (mOnlyModified rf1 \<and> onlyModifiedApplied cs)"
    using Cons.IH [OF cs n(2)] .
  moreover have "mOnlyModified rf1 = (mOnlyModified rf \<and> appliedFlag c \<in> {None, Some MODIFIED})"
    using call_onlyModified [OF c n(1)] .
  ultimately show ?case
    by (auto simp: onlyModifiedApplied_def)
qed

lemma calls_append:
  "calls (cs @ ds) rf = (case calls cs rf of Inl e \<Rightarrow> Inl e | Inr rf' \<Rightarrow> calls ds rf')"
  by (induction cs arbitrary: rf) (auto split: sum.splits)

text \<open>
  Claim C6, as the code has it. \<open>onlyModified\<close> is true on a freshly constructed set. Over
  calls that apply flags (and do not call \<open>setOnlyModified\<close>) it is true afterwards exactly
  when it was true before and every applied flag is MODIFIED: it stays true under MODIFIED,
  becomes false with any other flag, and a later pure-MODIFIED entry does not bring it back.
  \<open>setOnlyModified(b)\<close> overwrites it with \<open>b\<close>, whatever was applied before.
\<close>

theorem onlyModified_lifetime:
  "mOnlyModified RevisionFile_default
   \<and> (calls cs rf = Inr rf' \<and> \<not> list_ex isSetOnlyModified cs \<longrightarrow>
        mOnlyModified rf' = (mOnlyModified rf \<and> onlyModifiedApplied cs))
   \<and> (calls (ds @ SetOnlyModified b # cs) rf = Inr rf' \<and> \<not> list_ex isSetOnlyModified cs \<longrightarrow>
        mOnlyModified rf' = (b \<and> onlyModifiedApplied cs))"
proof (intro conjI impI)
  show "mOnlyModified RevisionFile_default"
    by (simp add: RevisionFile_default_def)
next
  assume "calls cs rf = Inr rf' \<and> \<not> list_ex isSetOnlyModified cs"
  then show "mOnlyModified rf' = (mOnlyModified rf \<and> onlyModifiedApplied cs)"
    by (simp add: calls_onlyModified)
next
  assume a: "calls (ds @ SetOnlyModified b # cs) rf = Inr rf' \<and> \<not> list_ex isSetOnlyModified cs"
  then obtain rf1 where "calls ds rf = Inr rf1" and r: "calls cs (setOnlyModified b rf1) = Inr rf'"
    by (auto simp: calls_append split: sum.splits)
  from calls_onlyModified [OF r] a show "mOnlyModified rf' = (b \<and> onlyModifiedApplied cs)"
    by (simp add: setOnlyModified_def)
qed

theorem onlyModified_lifetime_witness:
  "map_sum id mOnlyModified
     (calls [SetStatusToken ''M'', SetStatusToken ''A'', SetStatusToken ''M''] RevisionFile_default)
     = Inr False
   \<and> map_sum id mOnlyModified
     (calls [SetStatusToken ''M'', SetStatusToken ''M''] RevisionFile_default) = Inr True
   \<and> map_sum id mOnlyModified
     (calls ([SetStatusToken ''A''] @ SetOnlyModified True # [SetStatusToken ''M''])
        RevisionFile_default) = Inr True"
proof -
  let ?a = "[SetStatusToken ''M'', SetStatusToken ''A'', SetStatusToken ''M'']"
  let ?b = "[SetStatusToken ''M'', SetStatusToken ''M'']"
  let ?c = "[SetStatusToken ''A''] @ SetOnlyModified True # [SetStatusToken ''M'']"
  obtain ra where ra: "calls ?a RevisionFile_default = Inr ra" by simp
  obtain rb where rb: "calls ?b RevisionFile_default = Inr rb" by simp
  obtain rc where rc: "calls ?c RevisionFile_default = Inr rc" by simp
  have "\<not> mOnlyModified ra"
    using onlyModified_lifetime [of ?a RevisionFile_default ra] ra
    by (simp add: onlyModifiedApplied_def)
  moreover have "mOnlyModified rb"
    using onlyModified_lifetime [of ?b RevisionFile_default rb] rb
    by (simp add: onlyModifiedApplied_def)
  moreover have "mOnlyModified rc"
    using onlyModified_lifetime [where ds = "[SetStatusToken ''A'']" and b = True
        and cs = "[SetStatusToken ''M'']" and rf = RevisionFile_default and rf' = rc] rc
    by (simp add: onlyModifiedApplied_def)
  ultimately show ?thesis
    using ra rb rc by simp
qed

text \<open>
  The claim as it is written fails on the public setter: after NEW has been applied,
  \<open>setOnlyModified(true)\<close> makes the flag true again; and \<open>setOnlyModified(false)\<close> makes it
  false on a set to which no flag has been applied.
\<close>

theorem onlyModified_counterexample:
  "appliedFlag (SetStatusToken ''A'') = Some NEW
   \<and> calls [SetStatusToken ''A'', SetOnlyModified True] RevisionFile_default
       = Inr \<lparr>mergeParent = [], mFiles = [], mOnlyModified = True, mFileStatus = [4],
              mRenamedFiles = []\<rparr>
   \<and> calls [SetOnlyModified False] RevisionFile_default
       = Inr \<lparr>mergeParent = [], mFiles = [], mOnlyModified = False, mFileStatus = [],
              mRenamedFiles = []\<rparr>"
  by (simp add: RevisionFile_default_def setStatus_token_def clearsOnlyModified_def
      setOnlyModified_def)

section \<open>Properties of the work-in-progress widget\<close>

subsection \<open>Colour and bucket of a new entry\<close>

lemma thenDo_Inr [simp]: "thenDo (Inr v) f = f v"
  by (simp add: thenDo_def)

lemma thenDo_Inl [simp]: "thenDo (Inl e) f = Inl e"
  by (simp add: thenDo_def)

lemma getColorForFile_in:
  assumes "0 \<le> i" "i < count files" "i < getFilesCount files"
  shows "getColorForFile files i =
     Inr (let st = mFileStatus files ! nat i in
          if flagSet st CONFLICT then Blue
          else if flagSet st DELETED then Red
          else if flagSet st UNKNOWN \<and> \<not> flagSet st IN_INDEX then Orange
          else if flagSet st NEW \<or> flagSet st UNKNOWN \<or> flagSet st IN_INDEX then Green
          else TextColor)"
  using assms by (simp add: getColorForFile_def statusCmp_in Let_def)

text \<open>
  Claim C3. The colour of an entry is the first match of: CONFLICT (blue), DELETED (red),
  untracked, that is UNKNOWN without IN_INDEX (orange), NEW or UNKNOWN or IN_INDEX (green),
  and the text colour otherwise. An entry with both CONFLICT and DELETED gets the conflict
  colour.
\<close>

theorem getColorForFile_order:
  assumes "0 \<le> i" "i < count files" "i < getFilesCount files"
  shows "getColorForFile files i =
           Inr (let st = mFileStatus files ! nat i in
                if flagSet st CONFLICT then Blue
                else if flagSet st DELETED then Red
                else if flagSet st UNKNOWN \<and> \<not> flagSet st IN_INDEX then Orange
                else if flagSet st NEW \<or> flagSet st UNKNOWN \<or> flagSet st IN_INDEX then Green
                else TextColor)
         \<and> (flagSet (mFileStatus files ! nat i) CONFLICT
              \<and> flagSet (mFileStatus files ! nat i) DELETED
            \<longrightarrow> getColorForFile files i = Inr Blue)"
  using assms by (simp add: getColorForFile_in Let_def)

theorem getColorForFile_order_witness:
  "flagSet 130 CONFLICT \<and> flagSet 130 DELETED
   \<and> getColorForFile \<lparr>mergeParent = [], mFiles = [''f''], mOnlyModified = False,
        mFileStatus = [130], mRenamedFiles = []\<rparr> 0 = Inr Blue
   \<and> getColorForFile \<lparr>mergeParent = [], mFiles = [''f''], mOnlyModified = False,
        mFileStatus = [2], mRenamedFiles = []\<rparr> 0 = Inr Red"
  using getColorForFile_order [of 0 "\<lparr>mergeParent = [], mFiles = [''f''],
          mOnlyModified = False, mFileStatus = [130], mRenamedFiles = []\<rparr>"]
    getColorForFile_order [of 0 "\<lparr>mergeParent = [], mFiles = [''f''],
          mOnlyModified = False, mFileStatus = [2], mRenamedFiles = []\<rparr>"]
  by (simp add: count_def getFilesCount_def flagSet_def)

subsection \<open>The entry of a new path\<close>

lemma getFile_in: "0 \<le> i \<Longrightarrow> i < count files \<Longrightarrow> getFile files i = Inr (mFiles files ! nat i)"
  by (simp add: getFile_def count_def QVector_at_def)

lemma insertFile_retained:
  assumes "0 \<le> i" "i < count files"
    and "QMap_contains (mFiles files ! nat i) (mCurrentFilesCache w)"
  shows "insertFile files fileList i w =
     Inr (w\<lparr>mCurrentFilesCache := setFirst (mFiles files ! nat i) True (mCurrentFilesCache w)\<rparr>, [])"
  using assms by (simp add: insertFile_def getFile_in)

lemma insertFile_new:
  assumes "0 \<le> i" "i < count files" "i < getFilesCount files"
    and "\<not> QMap_contains (mFiles files ! nat i) (mCurrentFilesCache w)"
  shows "insertFile files fileList i w =
     (let fileName = mFiles files ! nat i;
          st = mFileStatus files ! nat i;
          color = (if flagSet st CONFLICT then Blue
                   else if flagSet st DELETED then Red
                   else if flagSet st UNKNOWN \<and> \<not> flagSet st IN_INDEX then Orange
                   else if flagSet st NEW \<or> flagSet st UNKNOWN \<or> flagSet st IN_INDEX then Green
                   else TextColor);
          untrackedFile = \<not> flagSet st IN_INDEX \<and> flagSet st UNKNOWN;
          staged = flagSet st IN_INDEX \<and> \<not> flagSet st UNKNOWN \<and> \<not> flagSet st CONFLICT;
          name = (if flagSet st CONFLICT then fileName @ '' (conflicts'' else fileName)
      in Inr (addItem fileList (nextItem w)
                (w\<lparr>mCurrentFilesCache := QMap_insert fileName (True, nextItem w) (mCurrentFilesCache w),
                   items := (items w)(nextItem w \<mapsto>
                     \<lparr>U_ListRole = (if untrackedFile then UntrackedFilesList
                                    else if staged then StagedFilesList else fileList),
                      U_IsConflict = flagSet st CONFLICT,
                      U_Name = name,
                      itemText = [],
                      toolTip = fileName,
                      foreground = color,
                      selectableEnabled = (fileList \<noteq> StagedFilesList)\<rparr>),
                   itemWidgets := (itemWidgets w)(nextItem w \<mapsto>
                     \<lparr>icon = (if \<not> untrackedFile \<and> staged then '':/icons/remove'' else '':/icons/add''),
                      widgetText = name,
                      textColor = color,
                      clicked = (if staged then ResetFile else AddFileToCommitList)\<rparr>),
                   nextItem := Suc (nextItem w)\<rparr>),
              [fileName]))"
  using assms
  by (simp add: insertFile_def getFile_in statusCmp_in getColorForFile_in Let_def)

lemma addItem_fields [simp]:
  "mCurrentFilesCache (addItem l p w) = mCurrentFilesCache w"
  "items (addItem l p w) = items w"
  "itemWidgets (addItem l p w) = itemWidgets w"
  "nextItem (addItem l p w) = nextItem w"
  "leCommitTitle (addItem l p w) = leCommitTitle w"
  "teDescription (addItem l p w) = teDescription w"
  by (cases l; simp)+

lemma rows_addItem: "rows l' (addItem l p w) = (if l' = l then rows l w @ [p] else rows l' w)"
  by (cases l; cases l'; simp)

text \<open>
  Claim C2. The bucket recorded for a new entry (the list stored under \<open>U_ListRole\<close>) is a
  function of the entry's flags alone: untracked iff UNKNOWN is set and IN_INDEX is not,
  staged iff IN_INDEX is set and neither UNKNOWN nor CONFLICT is, and the list the pass was
  called for, the unstaged one, otherwise; the conflict mark is the CONFLICT bit. So
  \<open>{UNKNOWN}\<close> is untracked, \<open>{IN_INDEX, MODIFIED}\<close> staged, \<open>{IN_INDEX, UNKNOWN}\<close> unstaged and
  \<open>{CONFLICT, IN_INDEX}\<close> unstaged with the conflict mark.
\<close>

theorem insertFile_bucket:
  assumes "0 \<le> i" "i < count files" "i < getFilesCount files"
    and "\<not> QMap_contains (mFiles files ! nat i) (mCurrentFilesCache w)"
    and "st = mFileStatus files ! nat i"
  shows "\<exists>w' it.
      insertFile files UnstagedFilesList i w = Inr (w', [mFiles files ! nat i])
      \<and> items w' (nextItem w) = Some it
      \<and> (U_ListRole it = UntrackedFilesList \<longleftrightarrow> flagSet st UNKNOWN \<and> \<not> flagSet st IN_INDEX)
      \<and> (U_ListRole it = StagedFilesList \<longleftrightarrow>
           flagSet st IN_INDEX \<and> \<not> flagSet st UNKNOWN \<and> \<not> flagSet st CONFLICT)
      \<and> (U_ListRole it = UnstagedFilesList \<longleftrightarrow>
           \<not> (flagSet st UNKNOWN \<and> \<not> flagSet st IN_INDEX)
           \<and> \<not> (flagSet st IN_INDEX \<and> \<not> flagSet st UNKNOWN \<and> \<not> flagSet st CONFLICT))
      \<and> (U_IsConflict it \<longleftrightarrow> flagSet st CONFLICT)
      \<and> (st = 32 \<longrightarrow> U_ListRole it = UntrackedFilesList)
      \<and> (st = 65 \<longrightarrow> U_ListRole it = StagedFilesList)
      \<and> (st = 96 \<longrightarrow> U_ListRole it = UnstagedFilesList)
      \<and> (st = 192 \<longrightarrow> U_ListRole it = UnstagedFilesList \<and> U_IsConflict it)"
  using assms(5) unfolding insertFile_new [OF assms(1-4)] Let_def
  by (auto simp: flagSet_def)


theorem insertFile_bucket_witness:
  "(0::int) \<le> 0
   \<and> \<not> QMap_contains ''x'' (mCurrentFilesCache WorkInProgressWidget_new)
   \<and> (\<exists>w' it.
        insertFile \<lparr>mergeParent = [], mFiles = [''x''], mOnlyModified = False,
            mFileStatus = [192], mRenamedFiles = []\<rparr> UnstagedFilesList 0 WorkInProgressWidget_new
          = Inr (w', [''x''])
        \<and> items w' 0 = Some it \<and> U_ListRole it = UnstagedFilesList \<and> U_IsConflict it)
   \<and> (\<exists>w' it.
        insertFile \<lparr>mergeParent = [], mFiles = [''x''], mOnlyModified = False,
            mFileStatus = [65], mRenamedFiles = []\<rparr> UnstagedFilesList 0 WorkInProgressWidget_new
          = Inr (w', [''x''])
        \<and> items w' 0 = Some it \<and> U_ListRole it = StagedFilesList \<and> \<not> U_IsConflict it)"
  using insertFile_bucket [of 0 "\<lparr>mergeParent = [], mFiles = [''x''], mOnlyModified = False,
            mFileStatus = [192], mRenamedFiles = []\<rparr>" WorkInProgressWidget_new 192]
    insertFile_bucket [of 0 "\<lparr>mergeParent = [], mFiles = [''x''], mOnlyModified = False,
            mFileStatus = [65], mRenamedFiles = []\<rparr>" WorkInProgressWidget_new 65]
  by (simp add: count_def getFilesCount_def QMap_contains_def WorkInProgressWidget_new_def
      flagSet_def) blast

subsection \<open>The sweep\<close>

lemma fold_deleteItem:
  "fold deleteItem ps w =
     w\<lparr>items := (\<lambda>q. if q \<in> set ps then None else items w q),
       itemWidgets := (\<lambda>q. if q \<in> set ps then None else itemWidgets w q),
       untrackedFilesList := filter (\<lambda>q. q \<notin> set ps) (untrackedFilesList w),
       unstagedFilesList := filter (\<lambda>q. q \<notin> set ps) (unstagedFilesList w),
       stagedFilesList := filter (\<lambda>q. q \<notin> set ps) (stagedFilesList w)\<rparr>"
proof (induction ps arbitrary: w)
  case Nil
  then show ?case by simp
next
  case (Cons p ps)
  have f: "filter (\<lambda>q. q \<notin> set ps) (removeAll p xs) = filter (\<lambda>q. q \<noteq> p \<and> q \<notin> set ps) xs"
    for xs by (induction xs) auto
  have "fold deleteItem (p # ps) w = fold deleteItem ps (deleteItem p w)"
    by simp
  also have "\<dots> = (deleteItem p w)
     \<lparr>items := (\<lambda>q. if q \<in> set ps then None else items (deleteItem p w) q),
       itemWidgets := (\<lambda>q. if q \<in> set ps then None else itemWidgets (deleteItem p w) q),
       untrackedFilesList := filter (\<lambda>q. q \<notin> set ps) (untrackedFilesList (deleteItem p w)),
       unstagedFilesList := filter (\<lambda>q. q \<notin> set ps) (unstagedFilesList (deleteItem p w)),
       stagedFilesList := filter (\<lambda>q. q \<notin> set ps) (stagedFilesList (deleteItem p w))\<rparr>"
    by (rule Cons.IH)
  also have "\<dots> = w
     \<lparr>items := (\<lambda>q. if q \<in> set (p # ps) then None else items w q),
       itemWidgets := (\<lambda>q. if q \<in> set (p # ps) then None else itemWidgets w q),
       untrackedFilesList := filter (\<lambda>q. q \<notin> set (p # ps)) (untrackedFilesList w),
       unstagedFilesList := filter (\<lambda>q. q \<notin> set (p # ps)) (unstagedFilesList w),
       stagedFilesList := filter (\<lambda>q. q \<notin> set (p # ps)) (stagedFilesList w)\<rparr>"
    by (simp add: deleteItem_def f fun_eq_iff)
  finally show ?case .
qed

lemma clearCache_from_eq:
  "distinct (map (\<lambda>(k, seen, item). item) m) \<Longrightarrow>
   list_all (\<lambda>(k, seen, item). items w item \<noteq> None) m \<Longrightarrow>
   clearCache_from m w =
     Inr (filter (\<lambda>(k, seen, item). seen) m,
          fold deleteItem (map (\<lambda>(k, seen, item). item) (filter (\<lambda>(k, seen, item). \<not> seen) m)) w,
          map fst (filter (\<lambda>(k, seen, item). \<not> seen) m))"
proof (induction m arbitrary: w)
  case Nil
  then show ?case by simp
next
  case (Cons e m)
  obtain k seen item where e: "e = (k, seen, item)" by (cases e)
  from Cons.prems e have d: "distinct (map (\<lambda>(k, seen, item). item) m)"
    and n: "item \<notin> set (map (\<lambda>(k, seen, item). item) m)"
    and l: "items w item \<noteq> None" "list_all (\<lambda>(k, seen, item). items w item \<noteq> None) m"
    by simp_all
  show ?case
  proof (cases seen)
    case True
    then show ?thesis using e Cons.IH [OF d l(2)] by simp
  next
    case False
    have "\<forall>(k', s', p') \<in> set m. p' \<noteq> item"
      using n by force
    then have "list_all (\<lambda>(k', s', p'). items (deleteItem item w) p' \<noteq> None) m"
      using l(2) by (auto simp: list_all_iff deleteItem_def)
    from Cons.IH [OF d this] False e l(1) show ?thesis by auto
  qed
qed


lemma rows_fold_deleteItem:
  "rows l (fold deleteItem ps w) = filter (\<lambda>q. q \<notin> set ps) (rows l w)"
  by (cases l) (simp_all add: fold_deleteItem)

lemma cacheOk_live: "cacheOk w \<Longrightarrow> itemsLive w"
  by (auto simp: cacheOk_def itemsLive_def list_all_iff)

lemma clearCache_eq:
  assumes "cacheOk w"
  shows "clearCache w =
     Inr ((fold deleteItem
             (map (\<lambda>(k, seen, item). item) (filter (\<lambda>(k, seen, item). \<not> seen) (mCurrentFilesCache w))) w)
            \<lparr>mCurrentFilesCache := filter (\<lambda>(k, seen, item). seen) (mCurrentFilesCache w)\<rparr>,
          map fst (filter (\<lambda>(k, seen, item). \<not> seen) (mCurrentFilesCache w)))"
proof -
  from assms have "distinct (map (\<lambda>(k, seen, item). item) (mCurrentFilesCache w))"
    and "list_all (\<lambda>(k, seen, item). items w item \<noteq> None) (mCurrentFilesCache w)"
    by (auto simp: cacheOk_def list_all_iff)
  from clearCache_from_eq [OF this] show ?thesis
    by (simp add: clearCache_def)
qed

lemma entry_by_key:
  "distinct (map fst m) \<Longrightarrow> (k, v) \<in> set m \<Longrightarrow> (k, v') \<in> set m \<Longrightarrow> v = v'"
  by (metis map_of_is_SomeI option.inject)

lemma entry_by_item:
  assumes "distinct (map (\<lambda>(k, seen, item). item) m)"
    and "(k, seen, item) \<in> set m" "(k', seen', item) \<in> set m"
  shows "k = k' \<and> seen = seen'"
proof -
  from assms(1) have "inj_on (\<lambda>(k, seen, item). item) (set m)"
    by (simp add: distinct_map)
  from inj_onD [OF this _ assms(2,3)] show ?thesis by simp
qed

lemma clearCache_result:
  assumes "cacheOk w"
  shows "\<exists>w'.
      clearCache w = Inr (w', map fst (filter (\<lambda>(k, seen, item). \<not> seen) (mCurrentFilesCache w)))
      \<and> mCurrentFilesCache w' = filter (\<lambda>(k, seen, item). seen) (mCurrentFilesCache w)
      \<and> (\<forall>(k, seen, item) \<in> set (mCurrentFilesCache w).
           if seen
           then QMap_value (mCurrentFilesCache w') k = Some (True, item)
                \<and> items w' item = items w item
                \<and> itemWidgets w' item = itemWidgets w item
                \<and> (\<forall>l. rows l w' = filter (\<lambda>q. q \<in> set (rows l w')) (rows l w)
                       \<and> (item \<in> set (rows l w') \<longleftrightarrow> item \<in> set (rows l w)))
           else \<not> QMap_contains k (mCurrentFilesCache w')
                \<and> items w' item = None
                \<and> itemWidgets w' item = None
                \<and> (\<forall>l. item \<notin> set (rows l w')))
      \<and> cacheOk w'"
proof -
  let ?m = "mCurrentFilesCache w"
  let ?ps = "map (\<lambda>(k, seen, item). item) (filter (\<lambda>(k, seen, item). \<not> seen) ?m)"
  let ?w' = "(fold deleteItem ?ps w)\<lparr>mCurrentFilesCache := filter (\<lambda>(k, seen, item). seen) ?m\<rparr>"
  from assms have dk: "distinct (map fst ?m)"
    and di: "distinct (map (\<lambda>(k, seen, item). item) ?m)"
    and lv: "\<forall>(k, seen, item) \<in> set ?m. item < nextItem w \<and> items w item \<noteq> None"
    by (auto simp: cacheOk_def list_all_iff)
  have seen_notin: "item \<notin> set ?ps" if "(k, True, item) \<in> set ?m" for k item
  proof
    assume "item \<in> set ?ps"
    then obtain k' where "(k', False, item) \<in> set ?m" by auto
    from entry_by_item [OF di that this] show False by simp
  qed
  have unseen_in: "item \<in> set ?ps" if "(k, False, item) \<in> set ?m" for k item
    using that by force
  have rw: "rows l ?w' = filter (\<lambda>q. q \<notin> set ?ps) (rows l w)" for l
    by (cases l) (simp_all add: fold_deleteItem)
  have fields: "items ?w' = (\<lambda>q. if q \<in> set ?ps then None else items w q)"
    "itemWidgets ?w' = (\<lambda>q. if q \<in> set ?ps then None else itemWidgets w q)"
    "nextItem ?w' = nextItem w"
    "mCurrentFilesCache ?w' = filter (\<lambda>(k, seen, item). seen) ?m"
    by (simp_all add: fold_deleteItem)
  have dk': "distinct (map fst (filter (\<lambda>(k, seen, item). seen) ?m))"
    using dk by (rule distinct_map_filter)
  have per: "if seen
           then QMap_value (mCurrentFilesCache ?w') k = Some (True, item)
                \<and> items ?w' item = items w item
                \<and> itemWidgets ?w' item = itemWidgets w item
                \<and> (\<forall>l. rows l ?w' = filter (\<lambda>q. q \<in> set (rows l ?w')) (rows l w)
                       \<and> (item \<in> set (rows l ?w') \<longleftrightarrow> item \<in> set (rows l w)))
           else \<not> QMap_contains k (mCurrentFilesCache ?w')
                \<and> items ?w' item = None
                \<and> itemWidgets ?w' item = None
                \<and> (\<forall>l. item \<notin> set (rows l ?w'))"
    if e: "(k, seen, item) \<in> set ?m" for k seen item
  proof (cases seen)
    case True
    from e True have "(k, True, item) \<in> set ?m" by simp
    then have n: "item \<notin> set ?ps" by (rule seen_notin)
    from e True have "(k, True, item) \<in> set (filter (\<lambda>(k, seen, item). seen) ?m)" by simp
    then have "map_of (filter (\<lambda>(k, seen, item). seen) ?m) k = Some (True, item)"
      using dk' by (simp add: map_of_is_SomeI del: set_filter)
    moreover have "rows l ?w' = filter (\<lambda>q. q \<in> set (rows l ?w')) (rows l w)" for l
      unfolding rw by (rule filter_cong) auto
    ultimately show ?thesis
      using True n by (simp add: fields QMap_value_def rw)
  next
    case False
    from e False have "(k, False, item) \<in> set ?m" by simp
    then have i: "item \<in> set ?ps" by (rule unseen_in)
    have "\<not> QMap_contains k (filter (\<lambda>(k, seen, item). seen) ?m)"
    proof
      assume "QMap_contains k (filter (\<lambda>(k, seen, item). seen) ?m)"
      then obtain p' where "(k, True, p') \<in> set ?m"
        by (auto simp: QMap_contains_def)
      from entry_by_key [OF dk this] e False show False by auto
    qed
    then show ?thesis
      using False i by (simp add: fields rw)
  qed
  have ok: "cacheOk ?w'"
    unfolding cacheOk_def fields
  proof (intro conjI)
    show "distinct (map fst (filter (\<lambda>(k, seen, item). seen) ?m))" by (rule dk')
    show "distinct (map (\<lambda>(k, seen, item). item) (filter (\<lambda>(k, seen, item). seen) ?m))"
      using di by (rule distinct_map_filter)
    show "list_all (\<lambda>(k, seen, item). item < nextItem w
             \<and> (if item \<in> set ?ps then None else items w item) \<noteq> None)
           (filter (\<lambda>(k, seen, item). seen) ?m)"
      unfolding list_all_iff
    proof (intro ballI)
      fix e assume a: "e \<in> set (filter (\<lambda>(k, seen, item). seen) ?m)"
      obtain k seen item where e: "e = (k, seen, item)" by (cases e)
      with a have m: "(k, True, item) \<in> set ?m" by auto
      from seen_notin [OF m] lv m e
      show "case e of (k, seen, item) \<Rightarrow> item < nextItem w
             \<and> (if item \<in> set ?ps then None else items w item) \<noteq> None"
        by auto
    qed
  qed
  have "clearCache w = Inr (?w', map fst (filter (\<lambda>(k, seen, item). \<not> seen) ?m))"
    by (rule clearCache_eq [OF assms])
  moreover have "mCurrentFilesCache ?w' = filter (\<lambda>(k, seen, item). seen) ?m"
    by (rule fields)
  moreover have "\<forall>(k, seen, item) \<in> set ?m.
           if seen
           then QMap_value (mCurrentFilesCache ?w') k = Some (True, item)
                \<and> items ?w' item = items w item
                \<and> itemWidgets ?w' item = itemWidgets w item
                \<and> (\<forall>l. rows l ?w' = filter (\<lambda>q. q \<in> set (rows l ?w')) (rows l w)
                       \<and> (item \<in> set (rows l ?w') \<longleftrightarrow> item \<in> set (rows l w)))
           else \<not> QMap_contains k (mCurrentFilesCache ?w')
                \<and> items ?w' item = None
                \<and> itemWidgets ?w' item = None
                \<and> (\<forall>l. item \<notin> set (rows l ?w'))"
    using per by blast
  ultimately show ?thesis using ok by blast
qed

text \<open>
  Claim C10. The sweep erases from the cache exactly the entries whose seen flag is false,
  deleting their items (which thereby leave the store, lose their row widget and leave every
  list), and keeps every entry whose seen flag is true, with the same pair and with its item,
  the item's widget and the item's place in the lists as they were.
\<close>

theorem clearCache_sweep:
  assumes "cacheOk w"
  shows "\<exists>w'.
      clearCache w = Inr (w', map fst (filter (\<lambda>(k, seen, item). \<not> seen) (mCurrentFilesCache w)))
      \<and> mCurrentFilesCache w' = filter (\<lambda>(k, seen, item). seen) (mCurrentFilesCache w)
      \<and> (\<forall>(k, seen, item) \<in> set (mCurrentFilesCache w).
           if seen
           then QMap_value (mCurrentFilesCache w') k = Some (True, item)
                \<and> items w' item = items w item
                \<and> itemWidgets w' item = itemWidgets w item
                \<and> (\<forall>l. rows l w' = filter (\<lambda>q. q \<in> set (rows l w')) (rows l w)
                       \<and> (item \<in> set (rows l w') \<longleftrightarrow> item \<in> set (rows l w)))
           else \<not> QMap_contains k (mCurrentFilesCache w')
                \<and> items w' item = None
                \<and> itemWidgets w' item = None
                \<and> (\<forall>l. item \<notin> set (rows l w')))
      \<and> cacheOk w'"
  using assms by (rule clearCache_result)

theorem clearCache_sweep_witness:
  "cacheOk (WorkInProgressWidget_new
      \<lparr>mCurrentFilesCache := [(''a'', True, 0), (''b'', False, 1)],
       items := [0 \<mapsto> \<lparr>U_ListRole = StagedFilesList, U_IsConflict = False, U_Name = ''a'',
                       itemText = [], toolTip = ''a'', foreground = Green,
                       selectableEnabled = True\<rparr>,
                 1 \<mapsto> \<lparr>U_ListRole = UnstagedFilesList, U_IsConflict = False, U_Name = ''b'',
                       itemText = [], toolTip = ''b'', foreground = TextColor,
                       selectableEnabled = True\<rparr>],
       nextItem := 2,
       unstagedFilesList := [0, 1]\<rparr>)
   \<and> (\<exists>w'. clearCache (WorkInProgressWidget_new
      \<lparr>mCurrentFilesCache := [(''a'', True, 0), (''b'', False, 1)],
       items := [0 \<mapsto> \<lparr>U_ListRole = StagedFilesList, U_IsConflict = False, U_Name = ''a'',
                       itemText = [], toolTip = ''a'', foreground = Green,
                       selectableEnabled = True\<rparr>,
                 1 \<mapsto> \<lparr>U_ListRole = UnstagedFilesList, U_IsConflict = False, U_Name = ''b'',
                       itemText = [], toolTip = ''b'', foreground = TextColor,
                       selectableEnabled = True\<rparr>],
       nextItem := 2,
       unstagedFilesList := [0, 1]\<rparr>) = Inr (w', [''b''])
     \<and> mCurrentFilesCache w' = [(''a'', True, 0)]
     \<and> items w' 1 = None
     \<and> cacheOk w')"
proof -
  let ?w = "WorkInProgressWidget_new
      \<lparr>mCurrentFilesCache := [(''a'', True, 0), (''b'', False, 1)],
       items := [0 \<mapsto> \<lparr>U_ListRole = StagedFilesList, U_IsConflict = False, U_Name = ''a'',
                       itemText = [], toolTip = ''a'', foreground = Green,
                       selectableEnabled = True\<rparr>,
                 1 \<mapsto> \<lparr>U_ListRole = UnstagedFilesList, U_IsConflict = False, U_Name = ''b'',
                       itemText = [], toolTip = ''b'', foreground = TextColor,
                       selectableEnabled = True\<rparr>],
       nextItem := 2,
       unstagedFilesList := [0, 1]\<rparr>"
  have ok: "cacheOk ?w"
    by (simp add: cacheOk_def WorkInProgressWidget_new_def)
  have m: "mCurrentFilesCache ?w = [(''a'', True, 0), (''b'', False, 1)]"
    by simp
  from clearCache_sweep [OF ok] obtain w' where
    "clearCache ?w = Inr (w', map fst (filter (\<lambda>(k, seen, item). \<not> seen) (mCurrentFilesCache ?w)))"
    "mCurrentFilesCache w' = filter (\<lambda>(k, seen, item). seen) (mCurrentFilesCache ?w)"
    "\<forall>(k, seen, item) \<in> set (mCurrentFilesCache ?w).
           if seen
           then QMap_value (mCurrentFilesCache w') k = Some (True, item)
                \<and> items w' item = items ?w item
                \<and> itemWidgets w' item = itemWidgets ?w item
                \<and> (\<forall>l. rows l w' = filter (\<lambda>q. q \<in> set (rows l w')) (rows l ?w)
                       \<and> (item \<in> set (rows l w') \<longleftrightarrow> item \<in> set (rows l ?w)))
           else \<not> QMap_contains k (mCurrentFilesCache w')
                \<and> items w' item = None
                \<and> itemWidgets w' item = None
                \<and> (\<forall>l. item \<notin> set (rows l w'))"
    "cacheOk w'"
    by blast
  then have "clearCache ?w = Inr (w', [''b''])" "mCurrentFilesCache w' = [(''a'', True, 0)]"
    "items w' 1 = None" "cacheOk w'"
    unfolding m by simp_all
  with ok show ?thesis by blast
qed

subsection \<open>Committing\<close>

lemma hasConflicts_from_live:
  "list_all (\<lambda>(k, seen, item). items w item \<noteq> None) m \<Longrightarrow>
   hasConflicts_from m w =
     Inr (list_ex (\<lambda>(k, seen, item). case items w item of None \<Rightarrow> False | Some it \<Rightarrow> U_IsConflict it) m)"
  by (induction m) auto

lemma hasConflicts_live: "itemsLive w \<Longrightarrow> hasConflicts w = Inr (conflictMarked w)"
  by (simp add: hasConflicts_def itemsLive_def conflictMarked_def hasConflicts_from_live)

lemma getFiles_from_Nil: "getFiles_from ps w = Inr sel \<Longrightarrow> (sel = []) = (ps = [])"
  by (cases ps) (auto split: option.splits sum.splits)

text \<open>
  Claim C9. \<open>commitChanges\<close> commits nothing and returns false when the staged list is empty
  and when an item of the cache carries the conflict mark (a warning is then shown if there
  are staged files). The commit is invoked only when the staged list is not empty, no cached
  item is marked and the message check succeeds; then it is invoked, and true is returned.
\<close>

theorem commitChanges_guard:
  "(stagedFilesList w = [] \<longrightarrow> commitChanges qt commitFiles w = Inr (False, [], w))
   \<and> (itemsLive w \<and> conflictMarked w \<and> getFiles w = Inr selFiles \<longrightarrow>
        (\<exists>effects. commitChanges qt commitFiles w = Inr (False, effects, w)
           \<and> \<not> commits effects
           \<and> (selFiles \<noteq> [] \<longrightarrow> effects =
                 [Warning ''Impossible to commit''
                    ''There are files with conflicts. Please, resolve the conflicts first.''])))
   \<and> (commitChanges qt commitFiles w = Inr (done, effects, w') \<and> commits effects \<longrightarrow>
        done \<and> stagedFilesList w \<noteq> [] \<and> hasConflicts w = Inr False
        \<and> (itemsLive w \<longrightarrow> \<not> conflictMarked w) \<and> fst (checkMsg qt w))
   \<and> (getFiles w = Inr selFiles \<and> selFiles \<noteq> [] \<and> itemsLive w \<and> \<not> conflictMarked w
        \<and> checkMsg qt w = (True, msg, warned) \<longrightarrow>
        commitChanges qt commitFiles w =
          Inr (True,
               warned @ [UpdateWipRevision, CommitFiles selFiles msg,
                         SignalChangesCommitted (commitFiles selFiles msg)],
               w\<lparr>lastMsgBeforeError := (if commitFiles selFiles msg then [] else msg),
                 leCommitTitle := [], teDescription := []\<rparr>)
        \<and> commits (warned @ [UpdateWipRevision, CommitFiles selFiles msg,
                         SignalChangesCommitted (commitFiles selFiles msg)]))"
proof -
  have A: "commitChanges qt commitFiles w = Inr (False, [], w)" if "stagedFilesList w = []"
    using that by (simp add: commitChanges_def getFiles_def)
  have B: "\<exists>effects. commitChanges qt commitFiles w = Inr (False, effects, w)
           \<and> \<not> commits effects
           \<and> (selFiles \<noteq> [] \<longrightarrow> effects =
                 [Warning ''Impossible to commit''
                    ''There are files with conflicts. Please, resolve the conflicts first.''])"
    if a: "itemsLive w \<and> conflictMarked w \<and> getFiles w = Inr selFiles"
  proof -
    from a have h: "hasConflicts w = Inr True" by (simp add: hasConflicts_live)
    show ?thesis
      using a h by (cases "selFiles = []") (simp_all add: commitChanges_def commits_def)
  qed
  have C: "done \<and> stagedFilesList w \<noteq> [] \<and> hasConflicts w = Inr False
        \<and> (itemsLive w \<longrightarrow> \<not> conflictMarked w) \<and> fst (checkMsg qt w)"
    if a: "commitChanges qt commitFiles w = Inr (done, effects, w') \<and> commits effects"
  proof -
    have nw: "\<not> commits warned" if "checkMsg qt w = (ok, msg, warned)" for ok msg warned
      using that by (auto simp: checkMsg_def Let_def commits_def split: if_splits)
    from a obtain selFiles where g: "getFiles w = Inr selFiles"
      by (auto simp: commitChanges_def split: sum.splits)
    from a g have ne: "selFiles \<noteq> []"
      by (auto simp: commitChanges_def commits_def split: sum.splits if_splits)
    from a g ne obtain c where hc: "hasConflicts w = Inr c"
      by (auto simp: commitChanges_def split: sum.splits)
    from a g ne hc have c: "\<not> c"
      by (auto simp: commitChanges_def commits_def split: if_splits)
    obtain ok msg warned where ck: "checkMsg qt w = (ok, msg, warned)"
      by (cases "checkMsg qt w")
    from a g ne hc c ck nw [OF ck] have ok: "ok" and d: "done"
      by (auto simp: commitChanges_def Let_def split: if_splits)
    from g ne have "stagedFilesList w \<noteq> []"
      by (auto simp: getFiles_def)
    with d hc c ok ck show ?thesis
      by (auto simp: hasConflicts_live)
  qed
  have D: "commitChanges qt commitFiles w =
          Inr (True,
               warned @ [UpdateWipRevision, CommitFiles selFiles msg,
                         SignalChangesCommitted (commitFiles selFiles msg)],
               w\<lparr>lastMsgBeforeError := (if commitFiles selFiles msg then [] else msg),
                 leCommitTitle := [], teDescription := []\<rparr>)
        \<and> commits (warned @ [UpdateWipRevision, CommitFiles selFiles msg,
                         SignalChangesCommitted (commitFiles selFiles msg)])"
    if a: "getFiles w = Inr selFiles \<and> selFiles \<noteq> [] \<and> itemsLive w \<and> \<not> conflictMarked w
        \<and> checkMsg qt w = (True, msg, warned)"
  proof -
    from a have h: "hasConflicts w = Inr False" by (simp add: hasConflicts_live)
    from a h show ?thesis
      by (simp add: commitChanges_def Let_def commits_def)
  qed
  from A B C D show ?thesis by blast
qed

theorem commitChanges_guard_witness:
  "commitChanges \<lparr>removeComments = id, stripTrailing = id, trimmed = id, firstSection = id,
                  restSection = id\<rparr> (\<lambda>selFiles msg. True) WorkInProgressWidget_new
     = Inr (False, [], WorkInProgressWidget_new)
   \<and> itemsLive (WorkInProgressWidget_new
      \<lparr>mCurrentFilesCache := [(''x'', True, 0)],
       items := [0 \<mapsto> \<lparr>U_ListRole = UnstagedFilesList, U_IsConflict = True,
                       U_Name = ''x (conflicts'', itemText = [], toolTip = ''x'',
                       foreground = Blue, selectableEnabled = True\<rparr>],
       itemWidgets := [0 \<mapsto> \<lparr>icon = '':/icons/remove'', widgetText = ''x'',
                              textColor = Blue, clicked = AddFileToCommitList\<rparr>],
       nextItem := 1, stagedFilesList := [0], leCommitTitle := ''fix''\<rparr>)
   \<and> conflictMarked (WorkInProgressWidget_new
      \<lparr>mCurrentFilesCache := [(''x'', True, 0)],
       items := [0 \<mapsto> \<lparr>U_ListRole = UnstagedFilesList, U_IsConflict = True,
                       U_Name = ''x (conflicts'', itemText = [], toolTip = ''x'',
                       foreground = Blue, selectableEnabled = True\<rparr>],
       itemWidgets := [0 \<mapsto> \<lparr>icon = '':/icons/remove'', widgetText = ''x'',
                              textColor = Blue, clicked = AddFileToCommitList\<rparr>],
       nextItem := 1, stagedFilesList := [0], leCommitTitle := ''fix''\<rparr>)
   \<and> commitChanges \<lparr>removeComments = id, stripTrailing = id, trimmed = id, firstSection = id,
                  restSection = id\<rparr> (\<lambda>selFiles msg. True)
       (WorkInProgressWidget_new
      \<lparr>mCurrentFilesCache := [(''x'', True, 0)],
       items := [0 \<mapsto> \<lparr>U_ListRole = UnstagedFilesList, U_IsConflict = True,
                       U_Name = ''x (conflicts'', itemText = [], toolTip = ''x'',
                       foreground = Blue, selectableEnabled = True\<rparr>],
       itemWidgets := [0 \<mapsto> \<lparr>icon = '':/icons/remove'', widgetText = ''x'',
                              textColor = Blue, clicked = AddFileToCommitList\<rparr>],
       nextItem := 1, stagedFilesList := [0], leCommitTitle := ''fix''\<rparr>)
     = Inr (False,
            [Warning ''Impossible to commit''
               ''There are files with conflicts. Please, resolve the conflicts first.''],
            WorkInProgressWidget_new
      \<lparr>mCurrentFilesCache := [(''x'', True, 0)],
       items := [0 \<mapsto> \<lparr>U_ListRole = UnstagedFilesList, U_IsConflict = True,
                       U_Name = ''x (conflicts'', itemText = [], toolTip = ''x'',
                       foreground = Blue, selectableEnabled = True\<rparr>],
       itemWidgets := [0 \<mapsto> \<lparr>icon = '':/icons/remove'', widgetText = ''x'',
                              textColor = Blue, clicked = AddFileToCommitList\<rparr>],
       nextItem := 1, stagedFilesList := [0], leCommitTitle := ''fix''\<rparr>)
   \<and> \<not> conflictMarked (WorkInProgressWidget_new
      \<lparr>mCurrentFilesCache := [(''x'', True, 0)],
       items := [0 \<mapsto> \<lparr>U_ListRole = StagedFilesList, U_IsConflict = False,
                       U_Name = ''x'', itemText = [], toolTip = ''x'',
                       foreground = Green, selectableEnabled = True\<rparr>],
       itemWidgets := [0 \<mapsto> \<lparr>icon = '':/icons/remove'', widgetText = ''x'',
                              textColor = Green, clicked = ResetFile\<rparr>],
       nextItem := 1, stagedFilesList := [0], leCommitTitle := ''fix''\<rparr>)
   \<and> commitChanges \<lparr>removeComments = id, stripTrailing = id, trimmed = id, firstSection = id,
                  restSection = id\<rparr> (\<lambda>selFiles msg. True)
       (WorkInProgressWidget_new
      \<lparr>mCurrentFilesCache := [(''x'', True, 0)],
       items := [0 \<mapsto> \<lparr>U_ListRole = StagedFilesList, U_IsConflict = False,
                       U_Name = ''x'', itemText = [], toolTip = ''x'',
                       foreground = Green, selectableEnabled = True\<rparr>],
       itemWidgets := [0 \<mapsto> \<lparr>icon = '':/icons/remove'', widgetText = ''x'',
                              textColor = Green, clicked = ResetFile\<rparr>],
       nextItem := 1, stagedFilesList := [0], leCommitTitle := ''fix''\<rparr>)
     = Inr (True,
            [UpdateWipRevision,
             CommitFiles [''x''] (''fix'' @ [CHR 0x0A] @ ''fix'' @ [CHR 0x0A]),
             SignalChangesCommitted True],
            WorkInProgressWidget_new
      \<lparr>mCurrentFilesCache := [(''x'', True, 0)],
       items := [0 \<mapsto> \<lparr>U_ListRole = StagedFilesList, U_IsConflict = False,
                       U_Name = ''x'', itemText = [], toolTip = ''x'',
                       foreground = Green, selectableEnabled = True\<rparr>],
       itemWidgets := [0 \<mapsto> \<lparr>icon = '':/icons/remove'', widgetText = ''x'',
                              textColor = Green, clicked = ResetFile\<rparr>],
       nextItem := 1, stagedFilesList := [0], leCommitTitle := [],
       teDescription := [], lastMsgBeforeError := []\<rparr>)"
proof -
  let ?qt = "\<lparr>removeComments = id, stripTrailing = id, trimmed = id, firstSection = id,
                  restSection = id\<rparr>"
  let ?wc = "WorkInProgressWidget_new
      \<lparr>mCurrentFilesCache := [(''x'', True, 0)],
       items := [0 \<mapsto> \<lparr>U_ListRole = UnstagedFilesList, U_IsConflict = True,
                       U_Name = ''x (conflicts'', itemText = [], toolTip = ''x'',
                       foreground = Blue, selectableEnabled = True\<rparr>],
       itemWidgets := [0 \<mapsto> \<lparr>icon = '':/icons/remove'', widgetText = ''x'',
                              textColor = Blue, clicked = AddFileToCommitList\<rparr>],
       nextItem := 1, stagedFilesList := [0], leCommitTitle := ''fix''\<rparr>"
  let ?wg = "WorkInProgressWidget_new
      \<lparr>mCurrentFilesCache := [(''x'', True, 0)],
       items := [0 \<mapsto> \<lparr>U_ListRole = StagedFilesList, U_IsConflict = False,
                       U_Name = ''x'', itemText = [], toolTip = ''x'',
                       foreground = Green, selectableEnabled = True\<rparr>],
       itemWidgets := [0 \<mapsto> \<lparr>icon = '':/icons/remove'', widgetText = ''x'',
                              textColor = Green, clicked = ResetFile\<rparr>],
       nextItem := 1, stagedFilesList := [0], leCommitTitle := ''fix''\<rparr>"
  have s0: "stagedFilesList WorkInProgressWidget_new = []"
    by (simp add: WorkInProgressWidget_new_def)
  have lc: "itemsLive ?wc" "conflictMarked ?wc" "getFiles ?wc = Inr [''x'']"
    by (simp_all add: itemsLive_def conflictMarked_def getFiles_def WorkInProgressWidget_new_def)
  have lg: "itemsLive ?wg" "\<not> conflictMarked ?wg" "getFiles ?wg = Inr [''x'']"
    "checkMsg ?qt ?wg = (True, ''fix'' @ [CHR 0x0A] @ ''fix'' @ [CHR 0x0A], [])"
    by (simp_all add: itemsLive_def conflictMarked_def getFiles_def checkMsg_def
        WorkInProgressWidget_new_def)
  note g0 = commitChanges_guard [where w = WorkInProgressWidget_new and qt = ?qt
      and commitFiles = "\<lambda>selFiles msg. True", THEN conjunct1, rule_format, OF s0]
  note gc = commitChanges_guard [where w = ?wc and qt = ?qt and selFiles = "[''x'']"
      and commitFiles = "\<lambda>selFiles msg. True", THEN conjunct2, THEN conjunct1]
  note gg = commitChanges_guard [where w = ?wg and qt = ?qt and selFiles = "[''x'']"
      and msg = "''fix'' @ [CHR 0x0A] @ ''fix'' @ [CHR 0x0A]" and warned = "[]"
      and commitFiles = "\<lambda>selFiles msg. True",
      THEN conjunct2, THEN conjunct2, THEN conjunct2]
  from gc lc have c: "commitChanges ?qt (\<lambda>selFiles msg. True) ?wc
     = Inr (False,
            [Warning ''Impossible to commit''
               ''There are files with conflicts. Please, resolve the conflicts first.''], ?wc)"
    by auto
  from gg lg have g: "commitChanges ?qt (\<lambda>selFiles msg. True) ?wg
     = Inr (True,
            [UpdateWipRevision,
             CommitFiles [''x''] (''fix'' @ [CHR 0x0A] @ ''fix'' @ [CHR 0x0A]),
             SignalChangesCommitted True],
            ?wg\<lparr>lastMsgBeforeError := [], leCommitTitle := [], teDescription := []\<rparr>)"
    by simp
  have eq: "?wg\<lparr>lastMsgBeforeError := [], leCommitTitle := [], teDescription := []\<rparr>
     = WorkInProgressWidget_new
      \<lparr>mCurrentFilesCache := [(''x'', True, 0)],
       items := [0 \<mapsto> \<lparr>U_ListRole = StagedFilesList, U_IsConflict = False,
                       U_Name = ''x'', itemText = [], toolTip = ''x'',
                       foreground = Green, selectableEnabled = True\<rparr>],
       itemWidgets := [0 \<mapsto> \<lparr>icon = '':/icons/remove'', widgetText = ''x'',
                              textColor = Green, clicked = ResetFile\<rparr>],
       nextItem := 1, stagedFilesList := [0], leCommitTitle := [],
       teDescription := [], lastMsgBeforeError := []\<rparr>"
    by (simp add: WorkInProgressWidget_new_def)
  show ?thesis
    by (intro conjI g0 lc(1) lc(2) c lg(2) g [unfolded eq])
qed

subsection \<open>The loop of insertFiles\<close>

lemma QMap_insert_split:
  "\<not> QMap_contains k m \<Longrightarrow> \<exists>xs ys. m = xs @ ys \<and> QMap_insert k v m = xs @ (k, v) # ys"
proof (induction m)
  case Nil
  then show ?case by simp
next
  case (Cons e m)
  obtain k' v' where e: "e = (k', v')" by (cases e)
  from Cons.prems e have ne: "k \<noteq> k'" and nc: "\<not> QMap_contains k m"
    by (auto simp: QMap_contains_def)
  show ?case
  proof (cases "k < k'")
    case True
    then have "QMap_insert k v (e # m) = [] @ (k, v) # (e # m)"
      using e ne by simp
    then show ?thesis by blast
  next
    case False
    from Cons.IH [OF nc] obtain xs ys where "m = xs @ ys" "QMap_insert k v m = xs @ (k, v) # ys"
      by blast
    then have "e # m = (e # xs) @ ys" "QMap_insert k v (e # m) = (e # xs) @ (k, v) # ys"
      using e ne False by simp_all
    then show ?thesis by blast
  qed
qed

lemma QMap_insert_set:
  "\<not> QMap_contains k m \<Longrightarrow> set (QMap_insert k v m) = insert (k, v) (set m)"
  using QMap_insert_split [of k m v] by auto

lemma QMap_insert_distinct:
  assumes "\<not> QMap_contains k m" "distinct (map f m)" "f (k, v) \<notin> f ` set m"
  shows "distinct (map f (QMap_insert k v m))"
proof -
  from QMap_insert_split [OF assms(1), of v] obtain xs ys
    where "m = xs @ ys" "QMap_insert k v m = xs @ (k, v) # ys" by blast
  with assms(2,3) show ?thesis by auto
qed

lemma setFirst_maps:
  "map fst (setFirst k b m) = map fst m"
  "map (\<lambda>(k, seen, item). item) (setFirst k b m) = map (\<lambda>(k, seen, item). item) m"
  by (simp_all add: setFirst_def case_prod_beta)

lemma setFirst_map:
  "setFirst k b m = map (\<lambda>(k', seen, item). (k', if k' = k then b else seen, item)) m"
  by (induction m) (auto simp: setFirst_def)

lemma setFirst_set:
  "set (setFirst k b m) = (\<lambda>(k', seen, item). (k', if k' = k then b else seen, item)) ` set m"
  by (simp add: setFirst_map)

lemma insertFile_total:
  assumes "0 \<le> i" "i < count files" "count files \<le> getFilesCount files"
  shows "\<exists>w' c. insertFile files fileList i w = Inr (w', c)"
proof (cases "QMap_contains (mFiles files ! nat i) (mCurrentFilesCache w)")
  case True
  from insertFile_retained [OF assms(1,2) True] show ?thesis by blast
next
  case False
  from assms have "i < getFilesCount files" by simp
  from insertFile_new [OF assms(1,2) this False] show ?thesis by (simp add: Let_def)
qed

text \<open>The loop rule: an invariant of the body holds when the loop has run.\<close>

lemma insertFiles_from_invariant:
  assumes "count files \<le> getFilesCount files"
    and "\<And>j w acc w' c. 0 \<le> j \<Longrightarrow> j < count files \<Longrightarrow> I j w acc \<Longrightarrow>
                 insertFile files fileList j w = Inr (w', c) \<Longrightarrow> I (j + 1) w' (acc @ c)"
    and "0 \<le> i" "i \<le> count files" "I i w acc"
  shows "\<exists>w' r. insertFiles_from files fileList i w = Inr (w', r) \<and> I (count files) w' (acc @ r)"
  using assms
proof (induction files fileList i w arbitrary: acc rule: insertFiles_from.induct)
  case (1 files fileList i w)
  note wf = "1.prems"(1) and step = "1.prems"(2) and i0 = "1.prems"(3) and inv = "1.prems"(5)
  show ?case
  proof (cases "i < count files")
    case False
    with "1.prems"(4) have "i = count files" by simp
    with inv show ?thesis by simp
  next
    case True
    from insertFile_total [OF i0 True wf]
    obtain w1 c where b: "insertFile files fileList i w = Inr (w1, c)" by blast
    from step [OF i0 True inv b] have i1: "I (i + 1) w1 (acc @ c)" .
    from i0 True have r: "0 \<le> i + 1" "i + 1 \<le> count files" by simp_all
    have "\<exists>w' r. insertFiles_from files fileList (i + 1) w1 = Inr (w', r)
             \<and> I (count files) w' ((acc @ c) @ r)"
    proof (rule "1.IH" [OF True b refl wf _ r i1])
      fix j w acc w' c
      assume "0 \<le> j" "j < count files" "I j w acc" "insertFile files fileList j w = Inr (w', c)"
      then show "I (j + 1) w' (acc @ c)" by (rule step)
    qed
    then obtain w' r where "insertFiles_from files fileList (i + 1) w1 = Inr (w', r)"
      "I (count files) w' ((acc @ c) @ r)" by blast
    with True b show ?thesis by simp
  qed
qed


text \<open>One run of the body, with the details of the new item left out.\<close>

lemma insertFile_cases:
  assumes "0 \<le> i" "i < count files" "count files \<le> getFilesCount files"
    and "insertFile files fileList i w = Inr (w', c)"
  obtains (retained) "QMap_contains (mFiles files ! nat i) (mCurrentFilesCache w)"
      "w' = w\<lparr>mCurrentFilesCache := setFirst (mFiles files ! nat i) True (mCurrentFilesCache w)\<rparr>"
      "c = []"
  | (new) it fw where "\<not> QMap_contains (mFiles files ! nat i) (mCurrentFilesCache w)"
      "w' = addItem fileList (nextItem w)
              (w\<lparr>mCurrentFilesCache :=
                    QMap_insert (mFiles files ! nat i) (True, nextItem w) (mCurrentFilesCache w),
                 items := (items w)(nextItem w \<mapsto> it),
                 itemWidgets := (itemWidgets w)(nextItem w \<mapsto> fw),
                 nextItem := Suc (nextItem w)\<rparr>)"
      "c = [mFiles files ! nat i]"
proof (cases "QMap_contains (mFiles files ! nat i) (mCurrentFilesCache w)")
  case True
  from insertFile_retained [OF assms(1,2) True] assms(4) retained True show ?thesis by simp
next
  case False
  from assms have "i < getFilesCount files" by simp
  note e = insertFile_new [OF assms(1,2) this False, where fileList = fileList, unfolded Let_def]
  from e assms(4) have c: "c = [mFiles files ! nat i]" by simp
  from e assms(4) have "\<exists>it fw. w' = addItem fileList (nextItem w)
              (w\<lparr>mCurrentFilesCache :=
                    QMap_insert (mFiles files ! nat i) (True, nextItem w) (mCurrentFilesCache w),
                 items := (items w)(nextItem w \<mapsto> it),
                 itemWidgets := (itemWidgets w)(nextItem w \<mapsto> fw),
                 nextItem := Suc (nextItem w)\<rparr>)"
    by (intro exI) simp
  with c new [OF False] show ?thesis by blast
qed

lemma QMap_keys_contains: "QMap_contains k m = (k \<in> QMap_keys m)"
  by (simp add: QMap_contains_def QMap_keys_def)

lemma step_keys:
  assumes "0 \<le> i" "i < count files" "count files \<le> getFilesCount files"
    and "insertFile files fileList i w = Inr (w', c)"
  shows "QMap_keys (mCurrentFilesCache w') = insert (mFiles files ! nat i) (QMap_keys (mCurrentFilesCache w))"
    and "c = (if mFiles files ! nat i \<in> QMap_keys (mCurrentFilesCache w) then [] else [mFiles files ! nat i])"
  using assms
  by (cases rule: insertFile_cases;
      auto simp: QMap_keys_def QMap_contains_def setFirst_maps QMap_insert_set)+

lemma step_cacheOk:
  assumes "0 \<le> i" "i < count files" "count files \<le> getFilesCount files"
    and "insertFile files fileList i w = Inr (w', c)"
    and ok: "cacheOk w"
  shows "cacheOk w'"
  using assms(1-4)
proof (cases rule: insertFile_cases)
  case retained
  with ok show ?thesis
    by (simp add: cacheOk_def setFirst_maps list_all_iff setFirst_set case_prod_beta)
next
  case (new it fw)
  let ?k = "mFiles files ! nat i"
  let ?m = "mCurrentFilesCache w"
  from ok have lt: "\<forall>(k, seen, item) \<in> set ?m. item < nextItem w \<and> items w item \<noteq> None"
    by (simp add: cacheOk_def list_all_iff)
  then have fresh: "nextItem w \<notin> (\<lambda>(k, seen, item). item) ` set ?m"
    by fastforce
  from new(1) have nk: "?k \<notin> fst ` set ?m" by (simp add: QMap_contains_def)
  have d1: "distinct (map fst (QMap_insert ?k (True, nextItem w) ?m))"
    using ok nk by (intro QMap_insert_distinct [OF new(1)]) (simp_all add: cacheOk_def)
  have d2: "distinct (map (\<lambda>(k, seen, item). item) (QMap_insert ?k (True, nextItem w) ?m))"
    using ok fresh by (intro QMap_insert_distinct [OF new(1)]) (simp_all add: cacheOk_def)
  from lt have "\<forall>(k, seen, item) \<in> set (QMap_insert ?k (True, nextItem w) ?m).
      item < Suc (nextItem w) \<and> ((items w)(nextItem w \<mapsto> it)) item \<noteq> None"
    by (auto simp: QMap_insert_set [OF new(1)])
  with d1 d2 show ?thesis
    unfolding new(2) by (simp add: cacheOk_def list_all_iff)
qed

lemma step_entries_old:
  assumes "0 \<le> i" "i < count files" "count files \<le> getFilesCount files"
    and "insertFile files fileList i w = Inr (w', c)"
    and "(k, s, p) \<in> set (mCurrentFilesCache w)"
  shows "(k, s \<or> k = mFiles files ! nat i, p) \<in> set (mCurrentFilesCache w')"
  using assms(1-4)
proof (cases rule: insertFile_cases)
  case retained
  from assms(5) have "(\<lambda>(k', seen, item). (k', if k' = mFiles files ! nat i then True else seen, item)) (k, s, p)
      \<in> set (setFirst (mFiles files ! nat i) True (mCurrentFilesCache w))"
    unfolding setFirst_set by (rule imageI)
  then show ?thesis
    unfolding retained(2) by (cases "k = mFiles files ! nat i") simp_all
next
  case (new it fw)
  from new(1) assms(5) have "k \<noteq> mFiles files ! nat i"
    by (force simp: QMap_contains_def)
  with assms(5) show ?thesis
    unfolding new(2) by (simp add: QMap_insert_set [OF new(1)])
qed

lemma step_entries_new:
  assumes "0 \<le> i" "i < count files" "count files \<le> getFilesCount files"
    and "insertFile files fileList i w = Inr (w', c)"
    and "(k, s, p) \<in> set (mCurrentFilesCache w')"
  shows "(\<exists>s0. (k, s0, p) \<in> set (mCurrentFilesCache w) \<and> s = (s0 \<or> k = mFiles files ! nat i))
         \<or> (k = mFiles files ! nat i \<and> k \<notin> QMap_keys (mCurrentFilesCache w) \<and> s \<and> p = nextItem w)"
  using assms(1-4)
proof (cases rule: insertFile_cases)
  case retained
  from assms(5) obtain s0 where "(k, s0, p) \<in> set (mCurrentFilesCache w)"
    "s = (if k = mFiles files ! nat i then True else s0)"
    unfolding retained(2) by (auto simp: setFirst_set)
  then show ?thesis
    by (cases "k = mFiles files ! nat i") auto
next
  case (new it fw)
  from new(1) have nk: "mFiles files ! nat i \<notin> QMap_keys (mCurrentFilesCache w)"
    by (simp add: QMap_keys_contains)
  from assms(5) have "(k, s, p) = (mFiles files ! nat i, True, nextItem w)
      \<or> (k, s, p) \<in> set (mCurrentFilesCache w)"
    unfolding new(2) by (simp add: QMap_insert_set [OF new(1)])
  then show ?thesis
  proof
    assume "(k, s, p) = (mFiles files ! nat i, True, nextItem w)"
    with nk show ?thesis by simp
  next
    assume m: "(k, s, p) \<in> set (mCurrentFilesCache w)"
    then have "k \<in> QMap_keys (mCurrentFilesCache w)"
      by (force simp: QMap_keys_def)
    with nk have "k \<noteq> mFiles files ! nat i" by blast
    with m show ?thesis by blast
  qed
qed

lemma step_frame:
  assumes "0 \<le> i" "i < count files" "count files \<le> getFilesCount files"
    and "insertFile files fileList i w = Inr (w', c)"
  shows "nextItem w \<le> nextItem w'"
    and "q < nextItem w \<Longrightarrow> items w' q = items w q \<and> itemWidgets w' q = itemWidgets w q"
    and "\<exists>extra. rows l w' = rows l w @ extra \<and> set extra \<subseteq> {nextItem w}"
  using assms
  by (cases rule: insertFile_cases; cases l; cases fileList; simp)+

lemma take_next:
  "0 \<le> j \<Longrightarrow> j < count files \<Longrightarrow>
   take (nat (j + 1)) (mFiles files) = take (nat j) (mFiles files) @ [mFiles files ! nat j]"
  by (simp add: count_def nat_add_distrib take_Suc_conv_app_nth)

lemma setFirst_mark:
  "setFirst n True (map (\<lambda>(k, s, p). (k, s \<or> k \<in> T, p)) m) =
   map (\<lambda>(k, s, p). (k, s \<or> k \<in> insert n T, p)) m"
  by (induction m) (auto simp: setFirst_def)

text \<open>When every path of the set is already cached, the loop only sets seen flags.\<close>

lemma insertFiles_all_retained:
  assumes wf: "count files \<le> getFilesCount files"
    and sub: "set (mFiles files) \<subseteq> QMap_keys (mCurrentFilesCache w)"
  shows "insertFiles files fileList w =
     Inr (w\<lparr>mCurrentFilesCache :=
              map (\<lambda>(k, s, p). (k, s \<or> k \<in> set (mFiles files), p)) (mCurrentFilesCache w)\<rparr>, [])"
proof -
  define I where "I = (\<lambda>(j::int) w' (acc::string list). acc = [] \<and>
      w' = w\<lparr>mCurrentFilesCache :=
              map (\<lambda>(k, s, p). (k, s \<or> k \<in> set (take (nat j) (mFiles files)), p))
                (mCurrentFilesCache w)\<rparr>)"
  have "\<exists>w' r. insertFiles_from files fileList 0 w = Inr (w', r) \<and> I (count files) w' ([] @ r)"
  proof (rule insertFiles_from_invariant [OF wf])
    fix j w1 acc w2 c
    assume j: "0 \<le> j" "j < count files" and inv: "I j w1 acc"
      and b: "insertFile files fileList j w1 = Inr (w2, c)"
    let ?name = "mFiles files ! nat j"
    from j have "?name \<in> set (mFiles files)" by (simp add: count_def)
    with sub have "?name \<in> QMap_keys (mCurrentFilesCache w)" by blast
    then have "QMap_contains ?name (mCurrentFilesCache w1)"
      using inv by (simp add: I_def QMap_contains_def QMap_keys_def case_prod_beta)
    from insertFile_retained [OF j this, of fileList] b
    have w2: "w2 = w1\<lparr>mCurrentFilesCache := setFirst ?name True (mCurrentFilesCache w1)\<rparr>"
      and c: "c = []" by simp_all
    show "I (j + 1) w2 (acc @ c)"
      using inv unfolding I_def w2 c take_next [OF j]
      by (simp add: setFirst_mark)
  next
    show "I 0 w []" by (simp add: I_def)
  qed (simp_all add: count_def)
  then show ?thesis
    by (auto simp: I_def insertFiles_def count_def)
qed


lemma QMap_keys_entry: "(k, v) \<in> set m \<Longrightarrow> k \<in> QMap_keys m"
  by (force simp: QMap_keys_def)

text \<open>What the loop has done to a well-formed cache when it has run over the whole set.\<close>

lemma insertFiles_result:
  assumes wf: "count files \<le> getFilesCount files"
    and ok: "cacheOk w"
  shows "\<exists>w' ins. insertFiles files fileList w = Inr (w', ins)
      \<and> cacheOk w'
      \<and> QMap_keys (mCurrentFilesCache w') = QMap_keys (mCurrentFilesCache w) \<union> set (mFiles files)
      \<and> (\<forall>(k, s, p) \<in> set (mCurrentFilesCache w).
            (k, s \<or> k \<in> set (mFiles files), p) \<in> set (mCurrentFilesCache w'))
      \<and> (\<forall>(k, s, p) \<in> set (mCurrentFilesCache w').
            k \<notin> QMap_keys (mCurrentFilesCache w) \<longrightarrow> s \<and> k \<in> set (mFiles files) \<and> nextItem w \<le> p)
      \<and> set ins = set (mFiles files) - QMap_keys (mCurrentFilesCache w)
      \<and> distinct ins
      \<and> nextItem w \<le> nextItem w'
      \<and> (\<forall>q < nextItem w. items w' q = items w q \<and> itemWidgets w' q = itemWidgets w q)
      \<and> (\<forall>l. \<exists>extra. rows l w' = rows l w @ extra \<and> (\<forall>q \<in> set extra. nextItem w \<le> q))"
proof -
  let ?K = "QMap_keys (mCurrentFilesCache w)"
  define I where "I = (\<lambda>(j::int) w' (acc::string list).
      cacheOk w'
      \<and> QMap_keys (mCurrentFilesCache w') = ?K \<union> set (take (nat j) (mFiles files))
      \<and> (\<forall>(k, s, p) \<in> set (mCurrentFilesCache w).
            (k, s \<or> k \<in> set (take (nat j) (mFiles files)), p) \<in> set (mCurrentFilesCache w'))
      \<and> (\<forall>(k, s, p) \<in> set (mCurrentFilesCache w').
            k \<notin> ?K \<longrightarrow> s \<and> k \<in> set (take (nat j) (mFiles files)) \<and> nextItem w \<le> p)
      \<and> set acc = set (take (nat j) (mFiles files)) - ?K
      \<and> distinct acc
      \<and> nextItem w \<le> nextItem w'
      \<and> (\<forall>q < nextItem w. items w' q = items w q \<and> itemWidgets w' q = itemWidgets w q)
      \<and> (\<forall>l. \<exists>extra. rows l w' = rows l w @ extra \<and> (\<forall>q \<in> set extra. nextItem w \<le> q)))"
  have "\<exists>w' r. insertFiles_from files fileList 0 w = Inr (w', r) \<and> I (count files) w' ([] @ r)"
  proof (rule insertFiles_from_invariant [OF wf])
    fix j w1 acc w2 c
    assume j: "0 \<le> j" "j < count files" and inv: "I j w1 acc"
      and b: "insertFile files fileList j w1 = Inr (w2, c)"
    let ?n = "mFiles files ! nat j"
    let ?T = "set (take (nat j) (mFiles files))"
    note tk = take_next [OF j]
    from inv have i1: "cacheOk w1"
      and i2: "QMap_keys (mCurrentFilesCache w1) = ?K \<union> ?T"
      and i3: "\<forall>(k, s, p) \<in> set (mCurrentFilesCache w). (k, s \<or> k \<in> ?T, p) \<in> set (mCurrentFilesCache w1)"
      and i4: "\<forall>(k, s, p) \<in> set (mCurrentFilesCache w1). k \<notin> ?K \<longrightarrow> s \<and> k \<in> ?T \<and> nextItem w \<le> p"
      and i5: "set acc = ?T - ?K" and i6: "distinct acc" and i7: "nextItem w \<le> nextItem w1"
      and i8: "\<forall>q < nextItem w. items w1 q = items w q \<and> itemWidgets w1 q = itemWidgets w q"
      and i9: "\<forall>l. \<exists>extra. rows l w1 = rows l w @ extra \<and> (\<forall>q \<in> set extra. nextItem w \<le> q)"
      by (simp_all add: I_def)
    note k = step_keys [OF j wf b]
    have c1: "cacheOk w2" by (rule step_cacheOk [OF j wf b i1])
    have c2: "QMap_keys (mCurrentFilesCache w2) = ?K \<union> insert ?n ?T"
      using k(1) i2 by simp
    have c3: "\<forall>(k, s, p) \<in> set (mCurrentFilesCache w). (k, s \<or> k \<in> insert ?n ?T, p) \<in> set (mCurrentFilesCache w2)"
    proof (clarify)
      fix k s p assume "(k, s, p) \<in> set (mCurrentFilesCache w)"
      with i3 have "(k, s \<or> k \<in> ?T, p) \<in> set (mCurrentFilesCache w1)" by blast
      from step_entries_old [OF j wf b this]
      have "(k, (s \<or> k \<in> ?T) \<or> k = ?n, p) \<in> set (mCurrentFilesCache w2)" .
      moreover have "((s \<or> k \<in> ?T) \<or> k = ?n) = (s \<or> k \<in> insert ?n ?T)" by blast
      ultimately show "(k, s \<or> k \<in> insert ?n ?T, p) \<in> set (mCurrentFilesCache w2)" by simp
    qed
    have c4: "\<forall>(k, s, p) \<in> set (mCurrentFilesCache w2).
        k \<notin> ?K \<longrightarrow> s \<and> k \<in> insert ?n ?T \<and> nextItem w \<le> p"
    proof (clarify)
      fix k s p assume e: "(k, s, p) \<in> set (mCurrentFilesCache w2)" and nk: "k \<notin> ?K"
      from step_entries_new [OF j wf b e]
      show "s \<and> k \<in> insert ?n ?T \<and> nextItem w \<le> p"
      proof
        assume "\<exists>s0. (k, s0, p) \<in> set (mCurrentFilesCache w1) \<and> s = (s0 \<or> k = ?n)"
        then obtain s0 where "(k, s0, p) \<in> set (mCurrentFilesCache w1)" "s = (s0 \<or> k = ?n)"
          by blast
        with i4 nk show ?thesis by blast
      next
        assume "k = ?n \<and> k \<notin> QMap_keys (mCurrentFilesCache w1) \<and> s \<and> p = nextItem w1"
        with i7 show ?thesis by simp
      qed
    qed
    have c5: "set (acc @ c) = insert ?n ?T - ?K"
      using k(2) i5 i2 by auto
    have c6: "distinct (acc @ c)"
      using k(2) i5 i6 i2 by auto
    note f = step_frame [OF j wf b]
    have c7: "nextItem w \<le> nextItem w2" using f(1) i7 by simp
    have c8: "\<forall>q < nextItem w. items w2 q = items w q \<and> itemWidgets w2 q = itemWidgets w q"
      using f(2) i7 i8 by auto
    have c9: "\<forall>l. \<exists>extra. rows l w2 = rows l w @ extra \<and> (\<forall>q \<in> set extra. nextItem w \<le> q)"
    proof
      fix l
      from i9 obtain e1 where e1: "rows l w1 = rows l w @ e1" "\<forall>q \<in> set e1. nextItem w \<le> q"
        by blast
      from f(3) [of l] obtain e2 where e2: "rows l w2 = rows l w1 @ e2" "set e2 \<subseteq> {nextItem w1}"
        by blast
      from e1 e2 i7 have "rows l w2 = rows l w @ (e1 @ e2)" "\<forall>q \<in> set (e1 @ e2). nextItem w \<le> q"
        by auto
      then show "\<exists>extra. rows l w2 = rows l w @ extra \<and> (\<forall>q \<in> set extra. nextItem w \<le> q)"
        by blast
    qed
    show "I (j + 1) w2 (acc @ c)"
      unfolding I_def tk using c1 c2 c3 c4 c5 c6 c7 c8 c9 by simp
  next
    show "I 0 w []"
      using ok by (auto simp: I_def dest: QMap_keys_entry)
  qed (simp_all add: count_def)
  then obtain w' r where r: "insertFiles files fileList w = Inr (w', r)" and "I (count files) w' r"
    by (auto simp: insertFiles_def)
  then have "I (int (length (mFiles files))) w' r" by (simp add: count_def)
  with r show ?thesis
    unfolding I_def by simp
qed

subsection \<open>A whole pass\<close>

text \<open>
  The statements about whole passes are made for a set with at least as many status entries
  as paths (the model's invariant: one status per path), so that \<open>statusCmp\<close> answers for
  every index the loop visits, and for a widget whose cache is in order (\<open>cacheOk\<close>): one
  entry per path, one item per entry, every cached item allocated. The widget is so after
  its constructor, and every pass keeps it so.
\<close>

lemma prepareCache_fields:
  "items (prepareCache w) = items w"
  "itemWidgets (prepareCache w) = itemWidgets w"
  "nextItem (prepareCache w) = nextItem w"
  "rows l (prepareCache w) = rows l w"
  "QMap_keys (mCurrentFilesCache (prepareCache w)) = QMap_keys (mCurrentFilesCache w)"
  "set (mCurrentFilesCache (prepareCache w)) = (\<lambda>(k, s, p). (k, False, p)) ` set (mCurrentFilesCache w)"
  by (cases l; simp add: prepareCache_def QMap_keys_def case_prod_beta)+

lemma prepareCache_maps:
  "map fst (mCurrentFilesCache (prepareCache w)) = map fst (mCurrentFilesCache w)"
  "map (\<lambda>(k, seen, item). item) (mCurrentFilesCache (prepareCache w))
     = map (\<lambda>(k, seen, item). item) (mCurrentFilesCache w)"
  by (simp_all add: prepareCache_def case_prod_beta)

lemma cacheOk_new: "cacheOk WorkInProgressWidget_new"
  by (simp add: cacheOk_def WorkInProgressWidget_new_def)

lemma prepareCache_cacheOk: "cacheOk w \<Longrightarrow> cacheOk (prepareCache w)"
  unfolding cacheOk_def prepareCache_maps
  by (auto simp: prepareCache_def list_all_iff)

lemma configure_pass_result:
  assumes wf: "count files \<le> getFilesCount files"
    and ok: "cacheOk w"
  shows "\<exists>r. configure_pass files w = Inr r
      \<and> cacheOk (widget r)
      \<and> QMap_keys (mCurrentFilesCache (widget r)) = set (mFiles files)
      \<and> (\<forall>(k, s, p) \<in> set (mCurrentFilesCache (widget r)). s)
      \<and> set (inserted r) = set (mFiles files) - QMap_keys (mCurrentFilesCache w)
      \<and> distinct (inserted r)
      \<and> set (removed r) = QMap_keys (mCurrentFilesCache w) - set (mFiles files)
      \<and> distinct (removed r)
      \<and> (\<forall>(k, s, p) \<in> set (mCurrentFilesCache w).
            if k \<in> set (mFiles files)
            then (k, True, p) \<in> set (mCurrentFilesCache (widget r))
                 \<and> items (widget r) p = items w p
                 \<and> itemWidgets (widget r) p = itemWidgets w p
                 \<and> (\<forall>l. p \<in> set (rows l (widget r)) \<longleftrightarrow> p \<in> set (rows l w))
            else items (widget r) p = None \<and> (\<forall>l. p \<notin> set (rows l (widget r))))"
proof -
  let ?P = "set (mFiles files)"
  let ?K = "QMap_keys (mCurrentFilesCache w)"
  let ?wp = "prepareCache w"
  note pf = prepareCache_fields [where w = w]
  have okp: "cacheOk ?wp" by (rule prepareCache_cacheOk [OF ok])
  from ok have lt: "\<forall>(k, s, p) \<in> set (mCurrentFilesCache w). p < nextItem w"
    by (auto simp: cacheOk_def list_all_iff)
  from insertFiles_result [OF wf okp, of UnstagedFilesList] obtain w1 ins where
    ins: "insertFiles files UnstagedFilesList ?wp = Inr (w1, ins)"
    and ok1: "cacheOk w1"
    and k1: "QMap_keys (mCurrentFilesCache w1) = ?K \<union> ?P"
    and old: "\<forall>(k, s, p) \<in> set (mCurrentFilesCache ?wp). (k, s \<or> k \<in> ?P, p) \<in> set (mCurrentFilesCache w1)"
    and new: "\<forall>(k, s, p) \<in> set (mCurrentFilesCache w1). k \<notin> ?K \<longrightarrow> s \<and> k \<in> ?P \<and> nextItem w \<le> p"
    and i5: "set ins = ?P - ?K" and i6: "distinct ins"
    and fr: "\<forall>q < nextItem w. items w1 q = items w q \<and> itemWidgets w1 q = itemWidgets w q"
    and rw: "\<forall>l. \<exists>extra. rows l w1 = rows l w @ extra \<and> (\<forall>q \<in> set extra. nextItem w \<le> q)"
    unfolding pf by blast
  from ok1 have dk1: "distinct (map fst (mCurrentFilesCache w1))"
    by (simp add: cacheOk_def)
  have old': "(k, k \<in> ?P, p) \<in> set (mCurrentFilesCache w1)"
    if "(k, s, p) \<in> set (mCurrentFilesCache w)" for k s p
  proof -
    from that have "(k, False, p) \<in> set (mCurrentFilesCache ?wp)"
      unfolding pf by force
    with old show ?thesis by fastforce
  qed
  have seen1: "s = (k \<in> ?P)" if e: "(k, s, p) \<in> set (mCurrentFilesCache w1)" for k s p
  proof (cases "k \<in> ?K")
    case True
    then obtain s0 p0 where "(k, s0, p0) \<in> set (mCurrentFilesCache w)"
      by (auto simp: QMap_keys_def)
    from old' [OF this] have "(k, k \<in> ?P, p0) \<in> set (mCurrentFilesCache w1)" .
    from entry_by_key [OF dk1 e this] show ?thesis by simp
  next
    case False
    with new e show ?thesis by blast
  qed
  from clearCache_result [OF ok1] obtain w2 where
    cc: "clearCache w1 = Inr (w2, map fst (filter (\<lambda>(k, seen, item). \<not> seen) (mCurrentFilesCache w1)))"
    and m2: "mCurrentFilesCache w2 = filter (\<lambda>(k, seen, item). seen) (mCurrentFilesCache w1)"
    and per: "\<forall>(k, seen, item) \<in> set (mCurrentFilesCache w1).
           if seen
           then QMap_value (mCurrentFilesCache w2) k = Some (True, item)
                \<and> items w2 item = items w1 item
                \<and> itemWidgets w2 item = itemWidgets w1 item
                \<and> (\<forall>l. rows l w2 = filter (\<lambda>q. q \<in> set (rows l w2)) (rows l w1)
                       \<and> (item \<in> set (rows l w2) \<longleftrightarrow> item \<in> set (rows l w1)))
           else \<not> QMap_contains k (mCurrentFilesCache w2)
                \<and> items w2 item = None
                \<and> itemWidgets w2 item = None
                \<and> (\<forall>l. item \<notin> set (rows l w2))"
    and ok2: "cacheOk w2"
    by blast
  let ?r = "\<lparr>widget = w2, inserted = ins,
             removed = map fst (filter (\<lambda>(k, seen, item). \<not> seen) (mCurrentFilesCache w1))\<rparr>"
  have r: "configure_pass files w = Inr ?r"
    by (simp add: configure_pass_def ins cc)
  have keys2: "QMap_keys (mCurrentFilesCache w2) = ?P"
  proof
    show "QMap_keys (mCurrentFilesCache w2) \<subseteq> ?P"
      unfolding m2 QMap_keys_def using seen1 by auto
    show "?P \<subseteq> QMap_keys (mCurrentFilesCache w2)"
    proof
      fix k assume kp: "k \<in> ?P"
      with k1 have "k \<in> QMap_keys (mCurrentFilesCache w1)" by simp
      then obtain s p where e: "(k, s, p) \<in> set (mCurrentFilesCache w1)"
        by (auto simp: QMap_keys_def)
      with seen1 kp have "(k, True, p) \<in> set (mCurrentFilesCache w2)"
        unfolding m2 by auto
      then show "k \<in> QMap_keys (mCurrentFilesCache w2)" by (rule QMap_keys_entry)
    qed
  qed
  have seen2: "\<forall>(k, s, p) \<in> set (mCurrentFilesCache w2). s"
    unfolding m2 by auto
  have rem: "set (removed ?r) = ?K - ?P"
  proof
    show "set (removed ?r) \<subseteq> ?K - ?P"
    proof
      fix k assume "k \<in> set (removed ?r)"
      then obtain p where e: "(k, False, p) \<in> set (mCurrentFilesCache w1)" by auto
      from seen1 [OF e] have "k \<notin> ?P" by simp
      moreover from e k1 have "k \<in> ?K \<union> ?P" using QMap_keys_entry by metis
      ultimately show "k \<in> ?K - ?P" by blast
    qed
    show "?K - ?P \<subseteq> set (removed ?r)"
    proof
      fix k assume a: "k \<in> ?K - ?P"
      then obtain s p where "(k, s, p) \<in> set (mCurrentFilesCache w)"
        by (auto simp: QMap_keys_def)
      from old' [OF this] a have "(k, False, p) \<in> set (mCurrentFilesCache w1)" by simp
      then show "k \<in> set (removed ?r)" by force
    qed
  qed
  have drem: "distinct (removed ?r)"
    using dk1 by (simp add: distinct_map_filter)
  have ent: "if k \<in> ?P
            then (k, True, p) \<in> set (mCurrentFilesCache w2)
                 \<and> items w2 p = items w p
                 \<and> itemWidgets w2 p = itemWidgets w p
                 \<and> (\<forall>l. p \<in> set (rows l w2) \<longleftrightarrow> p \<in> set (rows l w))
            else items w2 p = None \<and> (\<forall>l. p \<notin> set (rows l w2))"
    if e: "(k, s, p) \<in> set (mCurrentFilesCache w)" for k s p
  proof -
    from old' [OF e] have e1: "(k, k \<in> ?P, p) \<in> set (mCurrentFilesCache w1)" .
    from lt e have p: "p < nextItem w" by blast
    have rows1: "p \<in> set (rows l w1) \<longleftrightarrow> p \<in> set (rows l w)" for l
    proof -
      from rw obtain extra where "rows l w1 = rows l w @ extra" "\<forall>q \<in> set extra. nextItem w \<le> q"
        by blast
      with p show ?thesis by auto
    qed
    show ?thesis
    proof (cases "k \<in> ?P")
      case True
      with e1 have t: "(k, True, p) \<in> set (mCurrentFilesCache w1)" by simp
      with per have "items w2 p = items w1 p \<and> itemWidgets w2 p = itemWidgets w1 p
          \<and> (\<forall>l. p \<in> set (rows l w2) \<longleftrightarrow> p \<in> set (rows l w1))"
        by fastforce
      moreover from t have "(k, True, p) \<in> set (mCurrentFilesCache w2)"
        unfolding m2 by simp
      ultimately show ?thesis
        using True fr p rows1 by simp
    next
      case False
      with e1 have "(k, False, p) \<in> set (mCurrentFilesCache w1)" by simp
      with per have "items w2 p = None \<and> (\<forall>l. p \<notin> set (rows l w2))"
        by fastforce
      with False show ?thesis by simp
    qed
  qed
  have ent': "\<forall>(k, s, p) \<in> set (mCurrentFilesCache w).
            if k \<in> ?P
            then (k, True, p) \<in> set (mCurrentFilesCache w2)
                 \<and> items w2 p = items w p
                 \<and> itemWidgets w2 p = itemWidgets w p
                 \<and> (\<forall>l. p \<in> set (rows l w2) \<longleftrightarrow> p \<in> set (rows l w))
            else items w2 p = None \<and> (\<forall>l. p \<notin> set (rows l w2))"
    using ent by blast
  from r ok2 keys2 seen2 i5 i6 rem drem ent' show ?thesis
    by (intro exI [of _ ?r]) (simp only: Pass.select_convs simp_thms)
qed

lemma configure_pass_cacheOk:
  assumes "count files \<le> getFilesCount files" and "cacheOk w"
    and "configure_pass files w = Inr r"
  shows "cacheOk (widget r)"
proof -
  from configure_pass_result [OF assms(1,2)] obtain r' where
    "configure_pass files w = Inr r'" "cacheOk (widget r')"
    by blast
  with assms(3) show ?thesis by simp
qed

lemma configure_pass_fixpoint:
  assumes wf: "count files \<le> getFilesCount files"
    and ok: "cacheOk w"
    and keys: "QMap_keys (mCurrentFilesCache w) = set (mFiles files)"
    and seen: "\<forall>(k, s, p) \<in> set (mCurrentFilesCache w). s"
  shows "configure_pass files w = Inr \<lparr>widget = w, inserted = [], removed = []\<rparr>"
proof -
  let ?wp = "prepareCache w"
  have "set (mFiles files) \<subseteq> QMap_keys (mCurrentFilesCache ?wp)"
    by (simp add: prepareCache_fields keys)
  from insertFiles_all_retained [OF wf this, of UnstagedFilesList]
  have i: "insertFiles files UnstagedFilesList ?wp =
     Inr (?wp\<lparr>mCurrentFilesCache :=
              map (\<lambda>(k, s, p). (k, s \<or> k \<in> set (mFiles files), p)) (mCurrentFilesCache ?wp)\<rparr>, [])" .
  have "(\<lambda>(k, s, p). (k, s \<or> k \<in> set (mFiles files), p))
          ((\<lambda>(k, seen, item). (k, False, item)) e) = e"
    if "e \<in> set (mCurrentFilesCache w)" for e
  proof -
    obtain k s p where e: "e = (k, s, p)" by (cases e)
    from that e seen have "s = True" by blast
    moreover from that e keys have "k \<in> set (mFiles files)"
      using QMap_keys_entry by blast
    ultimately show ?thesis using e by simp
  qed
  then have "map (\<lambda>(k, s, p). (k, s \<or> k \<in> set (mFiles files), p)) (mCurrentFilesCache ?wp)
      = mCurrentFilesCache w"
    by (simp add: prepareCache_def map_idI)
  then have same: "?wp\<lparr>mCurrentFilesCache :=
              map (\<lambda>(k, s, p). (k, s \<or> k \<in> set (mFiles files), p)) (mCurrentFilesCache ?wp)\<rparr> = w"
    by (simp add: prepareCache_def)
  from seen have f: "filter (\<lambda>(k, seen, item). \<not> seen) (mCurrentFilesCache w) = []"
    "filter (\<lambda>(k, seen, item). seen) (mCurrentFilesCache w) = mCurrentFilesCache w"
    by (auto simp: filter_empty_conv filter_id_conv)
  have c: "clearCache w = Inr (w, [])"
    using clearCache_eq [OF ok] by (simp add: f)
  show ?thesis
    by (simp add: configure_pass_def i same c)
qed

text \<open>
  Claim C4. Reconciliation is idempotent: a pass with a set, then a second pass with the
  same set, creates no item and deletes none in the second pass, and leaves the widget as
  the first pass left it (so nothing has moved, no item has been rewritten, and every cached
  record is seen). The same holds for \<open>configure\<close>, which also rewrites the counters.
\<close>

theorem configure_pass_idempotent:
  assumes "count files \<le> getFilesCount files" and "cacheOk w"
  shows "(\<exists>r. configure_pass files w = Inr r
            \<and> configure_pass files (widget r) = Inr \<lparr>widget = widget r, inserted = [], removed = []\<rparr>
            \<and> (\<forall>(k, seen, item) \<in> set (mCurrentFilesCache (widget r)). seen))
       \<and> (\<exists>r. configure parentsCount files w = Inr r
            \<and> configure parentsCount files (widget r)
                = Inr \<lparr>widget = widget r, inserted = [], removed = []\<rparr>)"
proof -
  from configure_pass_result [OF assms] obtain r where
    r: "configure_pass files w = Inr r" and ok: "cacheOk (widget r)"
    and keys: "QMap_keys (mCurrentFilesCache (widget r)) = set (mFiles files)"
    and seen: "\<forall>(k, s, p) \<in> set (mCurrentFilesCache (widget r)). s"
    by blast
  have one: "configure_pass files (widget r) = Inr \<lparr>widget = widget r, inserted = [], removed = []\<rparr>"
    by (rule configure_pass_fixpoint [OF assms(1) ok keys seen])
  have two: "\<exists>r. configure parentsCount files w = Inr r
            \<and> configure parentsCount files (widget r)
                = Inr \<lparr>widget = widget r, inserted = [], removed = []\<rparr>"
  proof (cases "parentsCount \<le> 0")
    case True
    then show ?thesis by (simp add: configure_def)
  next
    case False
    let ?w = "(widget r)
                      \<lparr>lUnstagedCount := length (unstagedFilesList (widget r)),
                       lStagedCount := length (stagedFilesList (widget r)),
                       pbCommitEnabled := (stagedFilesList (widget r) \<noteq> [])\<rparr>"
    from ok have ok': "cacheOk ?w" by (simp add: cacheOk_def)
    have "configure_pass files ?w = Inr \<lparr>widget = ?w, inserted = [], removed = []\<rparr>"
      using keys seen by (intro configure_pass_fixpoint [OF assms(1) ok']) simp_all
    with False r show ?thesis by (simp add: configure_def)
  qed
  from r one seen two show ?thesis by blast
qed

theorem configure_pass_idempotent_witness:
  "cacheOk WorkInProgressWidget_new
   \<and> (\<exists>r. configure_pass \<lparr>mergeParent = [], mFiles = [''a'', ''b''], mOnlyModified = False,
              mFileStatus = [65, 32], mRenamedFiles = []\<rparr> WorkInProgressWidget_new = Inr r
          \<and> inserted r = [''a'', ''b'']
          \<and> configure_pass \<lparr>mergeParent = [], mFiles = [''a'', ''b''], mOnlyModified = False,
              mFileStatus = [65, 32], mRenamedFiles = []\<rparr> (widget r)
             = Inr \<lparr>widget = widget r, inserted = [], removed = []\<rparr>)"
proof -
  let ?f = "\<lparr>mergeParent = [], mFiles = [''a'', ''b''], mOnlyModified = False,
              mFileStatus = [65, 32], mRenamedFiles = []\<rparr>"
  have ok: "cacheOk WorkInProgressWidget_new"
    by (simp add: cacheOk_def WorkInProgressWidget_new_def)
  have wf: "count ?f \<le> getFilesCount ?f"
    by (simp add: count_def getFilesCount_def)
  from configure_pass_idempotent [OF wf ok] obtain r where
    r: "configure_pass ?f WorkInProgressWidget_new = Inr r"
    "configure_pass ?f (widget r) = Inr \<lparr>widget = widget r, inserted = [], removed = []\<rparr>"
    by blast
  have "\<exists>w1. configure_pass ?f WorkInProgressWidget_new
      = Inr \<lparr>widget = w1, inserted = [''a'', ''b''], removed = []\<rparr>"
    by (simp add: configure_pass_def insertFiles_def prepareCache_def clearCache_def
        WorkInProgressWidget_new_def insertFile_def getFile_def QVector_at_def count_def
        statusCmp_def getColorForFile_def flagSet_def QMap_contains_def Let_def)
  with r have "inserted r = [''a'', ''b'']" by auto
  with ok r show ?thesis by blast
qed

lemma distinct_singleton_set: "distinct xs \<Longrightarrow> set xs = {x} \<Longrightarrow> xs = [x]"
proof (cases xs)
  case Nil
  assume "set xs = {x}"
  with Nil show ?thesis by simp
next
  case (Cons y ys)
  assume d: "distinct xs" and s: "set xs = {x}"
  from s Cons have y: "y = x" and sub: "set ys \<subseteq> {x}" by auto
  from d Cons y have "x \<notin> set ys" by simp
  with sub have "ys = []" by (cases ys) auto
  with y Cons show ?thesis by simp
qed

text \<open>
  Claim C5. Reconciliation is sparse. A pass creates an item exactly for the paths of the
  new set that were not cached, once each, and erases exactly the cached paths that are not
  in the new set (each record still unseen after the loop), once each; afterwards the cache
  holds exactly the paths of the new set. With \<open>{a, b, c}\<close> cached and \<open>{a, c, d}\<close> in the
  new set, that is one remove, for \<open>b\<close>, one insert, for \<open>d\<close>, and nothing for \<open>a\<close> and
  \<open>c\<close>.
\<close>

theorem configure_pass_sparse:
  assumes "count files \<le> getFilesCount files" and "cacheOk w"
  shows "\<exists>r. configure_pass files w = Inr r
      \<and> set (inserted r) = set (mFiles files) - QMap_keys (mCurrentFilesCache w)
      \<and> distinct (inserted r)
      \<and> set (removed r) = QMap_keys (mCurrentFilesCache w) - set (mFiles files)
      \<and> distinct (removed r)
      \<and> QMap_keys (mCurrentFilesCache (widget r)) = set (mFiles files)
      \<and> (QMap_keys (mCurrentFilesCache w) = {a, b, c} \<and> set (mFiles files) = {a, c, d}
           \<and> distinct [a, b, c, d]
          \<longrightarrow> inserted r = [d] \<and> removed r = [b]
              \<and> a \<notin> set (inserted r) \<and> a \<notin> set (removed r)
              \<and> c \<notin> set (inserted r) \<and> c \<notin> set (removed r))"
proof -
  from configure_pass_result [OF assms] obtain r where
    r: "configure_pass files w = Inr r"
    and k: "QMap_keys (mCurrentFilesCache (widget r)) = set (mFiles files)"
    and i: "set (inserted r) = set (mFiles files) - QMap_keys (mCurrentFilesCache w)"
      "distinct (inserted r)"
    and e: "set (removed r) = QMap_keys (mCurrentFilesCache w) - set (mFiles files)"
      "distinct (removed r)"
    by blast
  have imp: "QMap_keys (mCurrentFilesCache w) = {a, b, c} \<and> set (mFiles files) = {a, c, d}
           \<and> distinct [a, b, c, d]
          \<longrightarrow> inserted r = [d] \<and> removed r = [b]
              \<and> a \<notin> set (inserted r) \<and> a \<notin> set (removed r)
              \<and> c \<notin> set (inserted r) \<and> c \<notin> set (removed r)"
  proof
    assume h: "QMap_keys (mCurrentFilesCache w) = {a, b, c} \<and> set (mFiles files) = {a, c, d}
           \<and> distinct [a, b, c, d]"
    from h i(1) have "set (inserted r) = {d}" by auto
    with i(2) have 1: "inserted r = [d]" by (simp add: distinct_singleton_set)
    from h e(1) have "set (removed r) = {b}" by auto
    with e(2) have 2: "removed r = [b]" by (simp add: distinct_singleton_set)
    from h have "a \<noteq> d" "a \<noteq> b" "c \<noteq> d" "c \<noteq> b" by auto
    with 1 2 show "inserted r = [d] \<and> removed r = [b]
              \<and> a \<notin> set (inserted r) \<and> a \<notin> set (removed r)
              \<and> c \<notin> set (inserted r) \<and> c \<notin> set (removed r)"
      by simp
  qed
  show ?thesis
    by (rule exI [of _ r]) (intro conjI r k i e imp)
qed

theorem configure_pass_sparse_witness:
  "cacheOk (WorkInProgressWidget_new
      \<lparr>mCurrentFilesCache := [(''a'', True, 0), (''b'', True, 1), (''c'', True, 2)],
       items := (\<lambda>p. if p < 3 then Some \<lparr>U_ListRole = UnstagedFilesList, U_IsConflict = False,
                         U_Name = [], itemText = [], toolTip = [], foreground = TextColor,
                         selectableEnabled = True\<rparr> else None),
       nextItem := 3,
       unstagedFilesList := [0, 1, 2]\<rparr>)
   \<and> distinct [''a'', ''b'', ''c'', ''d'']
   \<and> (\<exists>r. configure_pass \<lparr>mergeParent = [], mFiles = [''a'', ''c'', ''d''], mOnlyModified = True,
              mFileStatus = [1, 1, 1], mRenamedFiles = []\<rparr>
            (WorkInProgressWidget_new
      \<lparr>mCurrentFilesCache := [(''a'', True, 0), (''b'', True, 1), (''c'', True, 2)],
       items := (\<lambda>p. if p < 3 then Some \<lparr>U_ListRole = UnstagedFilesList, U_IsConflict = False,
                         U_Name = [], itemText = [], toolTip = [], foreground = TextColor,
                         selectableEnabled = True\<rparr> else None),
       nextItem := 3,
       unstagedFilesList := [0, 1, 2]\<rparr>) = Inr r
        \<and> inserted r = [''d''] \<and> removed r = [''b'']
        \<and> QMap_keys (mCurrentFilesCache (widget r)) = {''a'', ''c'', ''d''})"
proof -
  let ?w = "WorkInProgressWidget_new
      \<lparr>mCurrentFilesCache := [(''a'', True, 0), (''b'', True, 1), (''c'', True, 2)],
       items := (\<lambda>p. if p < 3 then Some \<lparr>U_ListRole = UnstagedFilesList, U_IsConflict = False,
                         U_Name = [], itemText = [], toolTip = [], foreground = TextColor,
                         selectableEnabled = True\<rparr> else None),
       nextItem := 3,
       unstagedFilesList := [0, 1, 2]\<rparr>"
  let ?f = "\<lparr>mergeParent = [], mFiles = [''a'', ''c'', ''d''], mOnlyModified = True,
              mFileStatus = [1, 1, 1], mRenamedFiles = []\<rparr>"
  have ok: "cacheOk ?w"
    by (simp add: cacheOk_def WorkInProgressWidget_new_def)
  have wf: "count ?f \<le> getFilesCount ?f"
    by (simp add: count_def getFilesCount_def)
  have d: "distinct [''a'', ''b'', ''c'', ''d'']" by simp
  have h: "QMap_keys (mCurrentFilesCache ?w) = {''a'', ''b'', ''c''} \<and> set (mFiles ?f) = {''a'', ''c'', ''d''}
           \<and> distinct [''a'', ''b'', ''c'', ''d'']"
    by (simp add: QMap_keys_def)
  from configure_pass_sparse [OF wf ok, of "''a''" "''b''" "''c''" "''d''"]
  obtain r where r: "configure_pass ?f ?w = Inr r"
    and k: "QMap_keys (mCurrentFilesCache (widget r)) = set (mFiles ?f)"
    and imp: "QMap_keys (mCurrentFilesCache ?w) = {''a'', ''b'', ''c''}
           \<and> set (mFiles ?f) = {''a'', ''c'', ''d''} \<and> distinct [''a'', ''b'', ''c'', ''d'']
          \<longrightarrow> inserted r = [''d''] \<and> removed r = [''b'']
              \<and> ''a'' \<notin> set (inserted r) \<and> ''a'' \<notin> set (removed r)
              \<and> ''c'' \<notin> set (inserted r) \<and> ''c'' \<notin> set (removed r)"
    by (elim exE conjE)
  note c = mp [OF imp h]
  from r k c [THEN conjunct1] c [THEN conjunct2, THEN conjunct1] have res: "configure_pass ?f ?w = Inr r \<and> inserted r = [''d''] \<and> removed r = [''b'']
        \<and> QMap_keys (mCurrentFilesCache (widget r)) = {''a'', ''c'', ''d''}"
    by simp
  have "\<exists>r. configure_pass ?f ?w = Inr r \<and> inserted r = [''d''] \<and> removed r = [''b'']
        \<and> QMap_keys (mCurrentFilesCache (widget r)) = {''a'', ''c'', ''d''}"
    by (rule exI [of _ r]) (rule res)
  with ok d show ?thesis by (intro conjI)
qed

text \<open>
  Claim C1, as the code has it. For an entry whose path is already cached, the loop only
  sets the seen flag of the record: it creates nothing and leaves the item, with the bucket,
  conflict mark and colour stored in it, as it is. Over a whole pass the path keeps its
  record and its item (the same address, the same data, the same widget, the same place in
  the lists) and is neither inserted nor removed.
\<close>

theorem configure_pass_retained:
  assumes "count files \<le> getFilesCount files" and "cacheOk w"
    and "(k, s, p) \<in> set (mCurrentFilesCache w)" and "k \<in> set (mFiles files)"
  shows "(0 \<le> i \<and> i < count files \<and> QMap_contains (mFiles files ! nat i) (mCurrentFilesCache v)
          \<longrightarrow> insertFile files fileList i v =
                Inr (v\<lparr>mCurrentFilesCache :=
                         setFirst (mFiles files ! nat i) True (mCurrentFilesCache v)\<rparr>, []))
       \<and> (\<exists>r. configure_pass files w = Inr r
            \<and> QMap_value (mCurrentFilesCache (widget r)) k = Some (True, p)
            \<and> cachedItem (widget r) k = cachedItem w k
            \<and> items (widget r) p = items w p
            \<and> itemWidgets (widget r) p = itemWidgets w p
            \<and> (\<forall>l. p \<in> set (rows l (widget r)) \<longleftrightarrow> p \<in> set (rows l w))
            \<and> k \<notin> set (inserted r) \<and> k \<notin> set (removed r))"
proof -
  have one: "0 \<le> i \<and> i < count files \<and> QMap_contains (mFiles files ! nat i) (mCurrentFilesCache v)
          \<longrightarrow> insertFile files fileList i v =
                Inr (v\<lparr>mCurrentFilesCache :=
                         setFirst (mFiles files ! nat i) True (mCurrentFilesCache v)\<rparr>, [])"
    by (simp add: insertFile_retained)
  from configure_pass_result [OF assms(1,2)] obtain r where
    r: "configure_pass files w = Inr r" and ok: "cacheOk (widget r)"
    and i: "set (inserted r) = set (mFiles files) - QMap_keys (mCurrentFilesCache w)"
    and e: "set (removed r) = QMap_keys (mCurrentFilesCache w) - set (mFiles files)"
    and ent: "\<forall>(k, s, p) \<in> set (mCurrentFilesCache w).
            if k \<in> set (mFiles files)
            then (k, True, p) \<in> set (mCurrentFilesCache (widget r))
                 \<and> items (widget r) p = items w p
                 \<and> itemWidgets (widget r) p = itemWidgets w p
                 \<and> (\<forall>l. p \<in> set (rows l (widget r)) \<longleftrightarrow> p \<in> set (rows l w))
            else items (widget r) p = None \<and> (\<forall>l. p \<notin> set (rows l (widget r)))"
    by blast
  from ent assms(3,4) have m: "(k, True, p) \<in> set (mCurrentFilesCache (widget r))"
    and it: "items (widget r) p = items w p"
    and fw: "itemWidgets (widget r) p = itemWidgets w p"
    and rw: "\<forall>l. p \<in> set (rows l (widget r)) \<longleftrightarrow> p \<in> set (rows l w)"
    by fastforce+
  from ok m have v: "QMap_value (mCurrentFilesCache (widget r)) k = Some (True, p)"
    by (simp add: cacheOk_def QMap_value_def map_of_is_SomeI)
  from assms(2,3) have v0: "QMap_value (mCurrentFilesCache w) k = Some (s, p)"
    by (simp add: cacheOk_def QMap_value_def map_of_is_SomeI)
  from v v0 it have ci: "cachedItem (widget r) k = cachedItem w k"
    by (simp add: cachedItem_def)
  from assms(3) have "k \<in> QMap_keys (mCurrentFilesCache w)" by (rule QMap_keys_entry)
  with i e assms(4) have n: "k \<notin> set (inserted r)" "k \<notin> set (removed r)" by simp_all
  have two: "\<exists>r. configure_pass files w = Inr r
            \<and> QMap_value (mCurrentFilesCache (widget r)) k = Some (True, p)
            \<and> cachedItem (widget r) k = cachedItem w k
            \<and> items (widget r) p = items w p
            \<and> itemWidgets (widget r) p = itemWidgets w p
            \<and> (\<forall>l. p \<in> set (rows l (widget r)) \<longleftrightarrow> p \<in> set (rows l w))
            \<and> k \<notin> set (inserted r) \<and> k \<notin> set (removed r)"
    by (rule exI [of _ r]) (intro conjI r v ci it fw rw n)
  from one two show ?thesis by (rule conjI)
qed

theorem configure_pass_retained_witness:
  "cacheOk (WorkInProgressWidget_new
      \<lparr>mCurrentFilesCache := [(''x'', True, 0)],
       items := [0 \<mapsto> \<lparr>U_ListRole = UnstagedFilesList, U_IsConflict = True,
                       U_Name = ''x (conflicts'', itemText = [], toolTip = ''x'',
                       foreground = Blue, selectableEnabled = True\<rparr>],
       itemWidgets := [0 \<mapsto> \<lparr>icon = '':/icons/add'', widgetText = ''x (conflicts'',
                              textColor = Blue, clicked = AddFileToCommitList\<rparr>],
       nextItem := 1,
       unstagedFilesList := [0]\<rparr>)
   \<and> (\<exists>r. configure_pass \<lparr>mergeParent = [], mFiles = [''x''], mOnlyModified = False,
              mFileStatus = [64], mRenamedFiles = []\<rparr>
          (WorkInProgressWidget_new
      \<lparr>mCurrentFilesCache := [(''x'', True, 0)],
       items := [0 \<mapsto> \<lparr>U_ListRole = UnstagedFilesList, U_IsConflict = True,
                       U_Name = ''x (conflicts'', itemText = [], toolTip = ''x'',
                       foreground = Blue, selectableEnabled = True\<rparr>],
       itemWidgets := [0 \<mapsto> \<lparr>icon = '':/icons/add'', widgetText = ''x (conflicts'',
                              textColor = Blue, clicked = AddFileToCommitList\<rparr>],
       nextItem := 1,
       unstagedFilesList := [0]\<rparr>) = Inr r
        \<and> cachedItem (widget r) ''x''
            = Some \<lparr>U_ListRole = UnstagedFilesList, U_IsConflict = True,
                    U_Name = ''x (conflicts'', itemText = [], toolTip = ''x'',
                    foreground = Blue, selectableEnabled = True\<rparr>
        \<and> ''x'' \<notin> set (inserted r) \<and> ''x'' \<notin> set (removed r))"
proof -
  let ?w = "WorkInProgressWidget_new
      \<lparr>mCurrentFilesCache := [(''x'', True, 0)],
       items := [0 \<mapsto> \<lparr>U_ListRole = UnstagedFilesList, U_IsConflict = True,
                       U_Name = ''x (conflicts'', itemText = [], toolTip = ''x'',
                       foreground = Blue, selectableEnabled = True\<rparr>],
       itemWidgets := [0 \<mapsto> \<lparr>icon = '':/icons/add'', widgetText = ''x (conflicts'',
                              textColor = Blue, clicked = AddFileToCommitList\<rparr>],
       nextItem := 1,
       unstagedFilesList := [0]\<rparr>"
  let ?f = "\<lparr>mergeParent = [], mFiles = [''x''], mOnlyModified = False,
              mFileStatus = [64], mRenamedFiles = []\<rparr>"
  have ok: "cacheOk ?w"
    by (simp add: cacheOk_def WorkInProgressWidget_new_def)
  have wf: "count ?f \<le> getFilesCount ?f"
    by (simp add: count_def getFilesCount_def)
  have m: "(''x'', True, 0) \<in> set (mCurrentFilesCache ?w)" by simp
  have k: "''x'' \<in> set (mFiles ?f)" by simp
  have c: "cachedItem ?w ''x'' = Some \<lparr>U_ListRole = UnstagedFilesList, U_IsConflict = True,
                    U_Name = ''x (conflicts'', itemText = [], toolTip = ''x'',
                    foreground = Blue, selectableEnabled = True\<rparr>"
    by (simp add: cachedItem_def QMap_value_def WorkInProgressWidget_new_def)
  from configure_pass_retained [OF wf ok m k, THEN conjunct2] obtain r where
    r: "configure_pass ?f ?w = Inr r"
    and ci: "cachedItem (widget r) ''x'' = cachedItem ?w ''x''"
    and n: "''x'' \<notin> set (inserted r)" "''x'' \<notin> set (removed r)"
    by (elim exE conjE)
  have "\<exists>r. configure_pass ?f ?w = Inr r
        \<and> cachedItem (widget r) ''x''
            = Some \<lparr>U_ListRole = UnstagedFilesList, U_IsConflict = True,
                    U_Name = ''x (conflicts'', itemText = [], toolTip = ''x'',
                    foreground = Blue, selectableEnabled = True\<rparr>
        \<and> ''x'' \<notin> set (inserted r) \<and> ''x'' \<notin> set (removed r)"
    by (rule exI [of _ r]) (intro conjI r n trans [OF ci c])
  with ok show ?thesis by (rule conjI)
qed

text \<open>
  The claim as it is written fails on the conflict resolution scenario. Pass 1 with \<open>x\<close>
  flagged \<open>{CONFLICT, IN_INDEX}\<close> (192) on a new widget records \<open>x\<close> as unstaged, conflict
  marked, blue. Pass 2 with \<open>x\<close> flagged \<open>{IN_INDEX}\<close> (64) inserts nothing, removes nothing
  and leaves the widget exactly as it was: \<open>x\<close> is still recorded as unstaged, marked and
  blue, although its current flags are those of a staged, unmarked, green entry.
\<close>

theorem configure_pass_reclassify_counterexample:
  "configure_pass \<lparr>mergeParent = [], mFiles = [''x''], mOnlyModified = False,
              mFileStatus = [192], mRenamedFiles = []\<rparr> WorkInProgressWidget_new
     = Inr \<lparr>widget = WorkInProgressWidget_new
      \<lparr>mCurrentFilesCache := [(''x'', True, 0)],
       items := [0 \<mapsto> \<lparr>U_ListRole = UnstagedFilesList, U_IsConflict = True,
                       U_Name = ''x (conflicts'', itemText = [], toolTip = ''x'',
                       foreground = Blue, selectableEnabled = True\<rparr>],
       itemWidgets := [0 \<mapsto> \<lparr>icon = '':/icons/add'', widgetText = ''x (conflicts'',
                              textColor = Blue, clicked = AddFileToCommitList\<rparr>],
       nextItem := 1,
       unstagedFilesList := [0]\<rparr>, inserted = [''x''], removed = []\<rparr>
   \<and> configure_pass \<lparr>mergeParent = [], mFiles = [''x''], mOnlyModified = False,
              mFileStatus = [64], mRenamedFiles = []\<rparr>
        (WorkInProgressWidget_new
      \<lparr>mCurrentFilesCache := [(''x'', True, 0)],
       items := [0 \<mapsto> \<lparr>U_ListRole = UnstagedFilesList, U_IsConflict = True,
                       U_Name = ''x (conflicts'', itemText = [], toolTip = ''x'',
                       foreground = Blue, selectableEnabled = True\<rparr>],
       itemWidgets := [0 \<mapsto> \<lparr>icon = '':/icons/add'', widgetText = ''x (conflicts'',
                              textColor = Blue, clicked = AddFileToCommitList\<rparr>],
       nextItem := 1,
       unstagedFilesList := [0]\<rparr>)
     = Inr \<lparr>widget = WorkInProgressWidget_new
      \<lparr>mCurrentFilesCache := [(''x'', True, 0)],
       items := [0 \<mapsto> \<lparr>U_ListRole = UnstagedFilesList, U_IsConflict = True,
                       U_Name = ''x (conflicts'', itemText = [], toolTip = ''x'',
                       foreground = Blue, selectableEnabled = True\<rparr>],
       itemWidgets := [0 \<mapsto> \<lparr>icon = '':/icons/add'', widgetText = ''x (conflicts'',
                              textColor = Blue, clicked = AddFileToCommitList\<rparr>],
       nextItem := 1,
       unstagedFilesList := [0]\<rparr>, inserted = [], removed = []\<rparr>
   \<and> statusCmp \<lparr>mergeParent = [], mFiles = [''x''], mOnlyModified = False,
              mFileStatus = [64], mRenamedFiles = []\<rparr> 0 IN_INDEX = Inr True
   \<and> statusCmp \<lparr>mergeParent = [], mFiles = [''x''], mOnlyModified = False,
              mFileStatus = [64], mRenamedFiles = []\<rparr> 0 UNKNOWN = Inr False
   \<and> statusCmp \<lparr>mergeParent = [], mFiles = [''x''], mOnlyModified = False,
              mFileStatus = [64], mRenamedFiles = []\<rparr> 0 CONFLICT = Inr False
   \<and> getColorForFile \<lparr>mergeParent = [], mFiles = [''x''], mOnlyModified = False,
              mFileStatus = [64], mRenamedFiles = []\<rparr> 0 = Inr Green"
  by (simp add: configure_pass_def insertFiles_def prepareCache_def clearCache_def
      WorkInProgressWidget_new_def insertFile_def getFile_def QVector_at_def count_def
      statusCmp_def getColorForFile_def flagSet_def QMap_contains_def setFirst_def Let_def)

end
